theory Spec2Isabelle
  imports Complex_Main "HOL-Library.AList"
begin

section \<open>Elimination of lambda applications (simplifier/btorelimapplies.c)\<close>

text \<open>
  The pass \<^verbatim>\<open>btor_eliminate_applies\<close> beta-reduces every non-parameterized
  application of every registered lambda, substitutes the results into the formula and
  repeats until a round finds nothing to reduce.  The function itself is embedded
  statement by statement.  What it calls lives in other files of the solver
  (\<^verbatim>\<open>btorbeta.c\<close>, \<^verbatim>\<open>btorcore.c\<close>, \<^verbatim>\<open>btornode.c\<close>, the iterators and the hash table):
  the beta reducer, the rebuild pass, reference counting, the clock and the debug
  checkers are parameters of the embedding, the substitution table operations are
  modelled from the specification.
\<close>

subsection \<open>Data\<close>

text \<open>
  Nodes are hash-consed: a pointer to a node identifies one structural value, so the
  node type \<open>'n\<close> stands for \<^verbatim>\<open>BtorNode *\<close>.  The fields of \<^verbatim>\<open>Btor\<close> that the
  pass reads or writes are fields of the record; everything else the solver owns (unique
  table, reference counts, constraints) is the field \<open>universe\<close>.

  \<^item> \<open>lambdas\<close>: the keys of the hash table \<^verbatim>\<open>btor->lambdas\<close> in iteration order;
  \<^item> \<open>apply_parents\<close>: for a function node, what the apply-parent iterator enumerates;
  \<^item> \<open>substitutions\<close>: the table \<^verbatim>\<open>btor->substitutions\<close> in insertion order;
  \<^item> \<open>time_elimapplies\<close>: the statistic \<^verbatim>\<open>btor->time.elimapplies\<close> (a C double,
    idealised as a real number).
\<close>

type_synonym 'n pair = "'n \<times> 'n"

type_synonym 'n pair_cache = "('n pair \<times> 'n) list"

type_synonym 'n subst_table = "('n \<times> 'n) list"

record ('n, 'u) Btor =
  lambdas :: "'n list"
  apply_parents :: "('n \<times> 'n list) list"
  substitutions :: "'n subst_table"
  time_elimapplies :: real
  universe :: 'u

text \<open>
  Every call the pass makes to another module is recorded, in order, with the arguments
  and results that are nodes or tables; \<open>DeleteSubstitutions m\<close> carries the table it
  deletes.  \<open>Msg_round n r\<close> is the diagnostic
  \<^verbatim>\<open>"eliminate %d applications in round %d"\<close>, \<open>Msg_total n d\<close> the closing one.
\<close>

datatype 'n event =
    TimeStamp
  | CacheNew
  | InitSubstitutions
  | BetaReduceFull 'n "'n pair_cache" 'n "'n pair_cache"
  | InsertSubstitution 'n 'n
  | NodeRelease 'n
  | Msg_round int int
  | SubstituteAndRebuild "'n subst_table"
  | DeleteSubstitutions "'n subst_table"
  | PairDelete "'n pair"
  | CacheDelete
  | Msg_total int real

text \<open>The three kinds of \<^verbatim>\<open>assert\<close> in the function; a failed assertion aborts.\<close>

datatype error =
    DuplicateSubstitution
  | GroundApplySurvives
  | DbgCheckFailed

text \<open>
  The collaborators of the pass.  \<open>ndebug\<close> is the build mode: assertions are compiled
  in exactly when it is false.  \<open>parameterized\<close> reads the bit \<^verbatim>\<open>app->parameterized\<close>,
  which a hash-consed node keeps for its whole life.  \<open>time_stamp k\<close> is the value of the
  \<open>k\<close>-th reading of the clock.  \<open>beta_reduce_full\<close> returns the reduced node, the cache
  as the reducer leaves it, and the solver state.
\<close>

record ('n, 'u) externals =
  ndebug :: bool
  parameterized :: "'n \<Rightarrow> bool"
  time_stamp :: "nat \<Rightarrow> real"
  beta_reduce_full ::
    "('n, 'u) Btor \<Rightarrow> 'n \<Rightarrow> 'n pair_cache \<Rightarrow> 'n \<times> 'n pair_cache \<times> ('n, 'u) Btor"
  substitute_and_rebuild :: "('n, 'u) Btor \<Rightarrow> 'n subst_table \<Rightarrow> ('n, 'u) Btor"
  node_copy :: "('n, 'u) Btor \<Rightarrow> 'n \<Rightarrow> ('n, 'u) Btor"
  node_release :: "('n, 'u) Btor \<Rightarrow> 'n \<Rightarrow> ('n, 'u) Btor"
  dbg_check_all_hash_tables_proxy_free :: "('n, 'u) Btor \<Rightarrow> bool"
  dbg_check_all_hash_tables_simp_free :: "('n, 'u) Btor \<Rightarrow> bool"
  dbg_check_unique_table_children_proxy_free :: "('n, 'u) Btor \<Rightarrow> bool"

text \<open>
  The local variables of \<^verbatim>\<open>btor_eliminate_applies\<close> together with the solver, and the
  record of calls made so far.  The C counters are \<^verbatim>\<open>int\<close>; they count nodes of a
  formula held in memory and stay far below \<open>2^31\<close>, so they are unbounded integers here.
\<close>

record ('n, 'u) pass_state =
  btor :: "('n, 'u) Btor"
  cache :: "'n pair_cache"
  num_applies :: int
  num_applies_total :: int
  round_no :: int
  trace :: "'n event list"

subsection \<open>Substitution table and iterators\<close>

text \<open>
  Modelled from the spec: \<^verbatim>\<open>btor_init_substitutions\<close> is missing (section 4.4, \<open>begin\<close>:
  create an empty, round-scoped map).
\<close>

definition btor_init_substitutions :: "('n, 'u) Btor \<Rightarrow> ('n, 'u) Btor" where
  "btor_init_substitutions b = b\<lparr>substitutions := []\<rparr>"

text \<open>
  Modelled from the spec: \<^verbatim>\<open>btor_hashptr_table_get\<close> is missing (section 4.6, \<open>get\<close>: the
  entry stored under a key, if there is one).
\<close>

definition btor_hashptr_table_get :: "('k \<times> 'v) list \<Rightarrow> 'k \<Rightarrow> 'v option" where
  "btor_hashptr_table_get t k = map_of t k"

text \<open>
  Modelled from the spec: \<^verbatim>\<open>btor_insert_substitution\<close> is missing (section 4.4, \<open>insert\<close>:
  record the pairing; the map owns a reference to the replacement).  The pass releases
  its own reference right after the insertion (line 65), so the map holds one of its own:
  it copies the node.
\<close>

definition btor_insert_substitution ::
  "('n, 'u) externals \<Rightarrow> ('n, 'u) Btor \<Rightarrow> 'n \<Rightarrow> 'n \<Rightarrow> ('n, 'u) Btor" where
  "btor_insert_substitution X b key subst =
     (let b' = node_copy X b subst
      in b'\<lparr>substitutions := substitutions b' @ [(key, subst)]\<rparr>)"

text \<open>
  Modelled from the spec: \<^verbatim>\<open>btor_delete_substitutions\<close> is missing (sections 3 and 4.4,
  \<open>consume\<close>: the map is cleared and what it held is released).
\<close>

definition btor_delete_substitutions ::
  "('n, 'u) externals \<Rightarrow> ('n, 'u) Btor \<Rightarrow> ('n, 'u) Btor" where
  "btor_delete_substitutions X b =
     (foldl (node_release X) b (map snd (substitutions b)))\<lparr>substitutions := []\<rparr>"

text \<open>
  Modelled from the spec: the iterators of \<^verbatim>\<open>utils/btornodeiter.h\<close> are missing (section
  4.2: a finite sequence of the application parents of a lambda, stable for a fixed graph
  state).  An iterator enumerates the elements present when it is initialised.
\<close>

definition iter_apply_parent :: "('n, 'u) Btor \<Rightarrow> 'n \<Rightarrow> 'n list" where
  "iter_apply_parent b fn = (case map_of (apply_parents b) fn of None \<Rightarrow> [] | Some ps \<Rightarrow> ps)"

subsection \<open>The pass\<close>

text \<open>
  Lines 61 to 65: one application that is not parameterized is counted, reduced, checked
  against the table (\<^verbatim>\<open>assert (!btor_hashptr_table_get (btor->substitutions, app))\<close>),
  inserted, and the reference returned by the reducer is released.
\<close>

definition eliminate_apply ::
  "('n, 'u) externals \<Rightarrow> 'n \<Rightarrow> ('n, 'u) pass_state \<Rightarrow> error + ('n, 'u) pass_state" where
  "eliminate_apply X app s =
     (case beta_reduce_full X (btor s) app (cache s) of
        (subst, cache', b1) \<Rightarrow>
          if \<not> ndebug X \<and> btor_hashptr_table_get (substitutions b1) app \<noteq> None
          then Inl DuplicateSubstitution
          else Inr (s\<lparr>btor := node_release X (btor_insert_substitution X b1 app subst) subst,
                      cache := cache',
                      num_applies := num_applies s + 1,
                      trace := trace s @
                        [BetaReduceFull app (cache s) subst cache',
                         InsertSubstitution app subst,
                         NodeRelease subst]\<rparr>))"

text \<open>
  Lines 54 to 66: the loop over the apply parents of one lambda.  A parameterized parent
  is skipped (\<^verbatim>\<open>continue\<close>).
\<close>

fun collect_parents ::
  "('n, 'u) externals \<Rightarrow> 'n list \<Rightarrow> ('n, 'u) pass_state \<Rightarrow> error + ('n, 'u) pass_state" where
  "collect_parents X [] s = Inr s"
| "collect_parents X (app # apps) s =
     (if parameterized X app then collect_parents X apps s
      else
        (case eliminate_apply X app s of
           Inl e \<Rightarrow> Inl e
         | Inr s' \<Rightarrow> collect_parents X apps s'))"

text \<open>Lines 49 to 67: the loop over the lambda registry.\<close>

fun collect_lambdas ::
  "('n, 'u) externals \<Rightarrow> 'n list \<Rightarrow> ('n, 'u) pass_state \<Rightarrow> error + ('n, 'u) pass_state" where
  "collect_lambdas X [] s = Inr s"
| "collect_lambdas X (fn # fns) s =
     (case collect_parents X (iter_apply_parent (btor s) fn) s of
        Inl e \<Rightarrow> Inl e
      | Inr s' \<Rightarrow> collect_lambdas X fns s')"

text \<open>Lines 45 to 78: the body of the \<^verbatim>\<open>do\<close> loop, one round.\<close>

definition round_begin :: "('n, 'u) pass_state \<Rightarrow> ('n, 'u) pass_state" where
  "round_begin s =
     s\<lparr>num_applies := 0,
       btor := btor_init_substitutions (btor s),
       trace := trace s @ [InitSubstitutions]\<rparr>"

definition round_end :: "('n, 'u) externals \<Rightarrow> ('n, 'u) pass_state \<Rightarrow> ('n, 'u) pass_state" where
  "round_end X s =
     s\<lparr>num_applies_total := num_applies_total s + num_applies s,
       btor := btor_delete_substitutions X
                 (substitute_and_rebuild X (btor s) (substitutions (btor s))),
       round_no := round_no s + 1,
       trace := trace s @
         [Msg_round (num_applies s) (round_no s),
          SubstituteAndRebuild (substitutions (btor s)),
          DeleteSubstitutions
            (substitutions (substitute_and_rebuild X (btor s) (substitutions (btor s))))]\<rparr>"

definition one_round ::
  "('n, 'u) externals \<Rightarrow> ('n, 'u) pass_state \<Rightarrow> error + ('n, 'u) pass_state" where
  "one_round X s =
     (let s0 = round_begin s
      in case collect_lambdas X (lambdas (btor s0)) s0 of
           Inl e \<Rightarrow> Inl e
         | Inr s1 \<Rightarrow> Inr (round_end X s1))"

text \<open>
  Lines 43 to 79: \<^verbatim>\<open>do { ... } while (num_applies > 0)\<close>.  Nothing bounds the number of
  rounds, so the loop is a partial function: \<open>None\<close> is a run that never leaves it.
\<close>

partial_function (option) rounds ::
  "('n, 'u) externals \<Rightarrow> ('n, 'u) pass_state \<Rightarrow> (error + ('n, 'u) pass_state) option" where
  "rounds X s =
     (case one_round X s of
        Inl e \<Rightarrow> Some (Inl e)
      | Inr s' \<Rightarrow> if num_applies s' > 0 then rounds X s' else Some (Inr s'))"

declare rounds.simps [code]

text \<open>
  Lines 81 to 94, compiled in a debug build only: every apply parent of every lambda must
  be parameterized.
\<close>

definition no_ground_apply_parent :: "('n, 'u) externals \<Rightarrow> ('n, 'u) Btor \<Rightarrow> bool" where
  "no_ground_apply_parent X b =
     list_all (\<lambda>fn. list_all (parameterized X) (iter_apply_parent b fn)) (lambdas b)"

text \<open>
  Lines 96 to 102: each cache entry gives back the reference to its value, its key is
  deleted, then the table is.
\<close>

definition cache_teardown ::
  "('n, 'u) externals \<Rightarrow> ('n, 'u) pass_state \<Rightarrow> ('n, 'u) pass_state" where
  "cache_teardown X s =
     s\<lparr>btor := foldl (node_release X) (btor s) (map snd (cache s)),
       cache := [],
       trace := trace s @
         concat (map (\<lambda>(p, v). [NodeRelease v, PairDelete p]) (cache s)) @ [CacheDelete]\<rparr>"

text \<open>Lines 104 to 113: the statistics, the closing message and the debug checkers.\<close>

definition finish ::
  "('n, 'u) externals \<Rightarrow> real \<Rightarrow> ('n, 'u) pass_state \<Rightarrow> error + ('n, 'u) pass_state" where
  "finish X start s =
     (let delta = time_stamp X 1 - start;
          b = (btor s)\<lparr>time_elimapplies := time_elimapplies (btor s) + delta\<rparr>;
          s' = s\<lparr>btor := b,
                 trace := trace s @ [TimeStamp, Msg_total (num_applies_total s) delta]\<rparr>
      in if \<not> ndebug X \<and>
            \<not> (dbg_check_all_hash_tables_proxy_free X b \<and>
               dbg_check_all_hash_tables_simp_free X b \<and>
               dbg_check_unique_table_children_proxy_free X b)
         then Inl DbgCheckFailed
         else Inr s')"

definition after_rounds ::
  "('n, 'u) externals \<Rightarrow> real \<Rightarrow> ('n, 'u) pass_state \<Rightarrow> error + ('n, 'u) pass_state" where
  "after_rounds X start s =
     (if \<not> ndebug X \<and> \<not> no_ground_apply_parent X (btor s)
      then Inl GroundApplySurvives
      else finish X start (cache_teardown X s))"

text \<open>
  The whole function.  On the early return of line 31 no local variable has been set and
  no call has been made: the state returned is the solver as given, with an empty record
  of calls.
\<close>

definition untouched :: "('n, 'u) Btor \<Rightarrow> ('n, 'u) pass_state" where
  "untouched b =
     \<lparr>btor = b, cache = [], num_applies = 0, num_applies_total = 0, round_no = 0, trace = []\<rparr>"

text \<open>Lines 33 to 37: the clock is read, the round counter set, the cache allocated.\<close>

definition started :: "('n, 'u) Btor \<Rightarrow> ('n, 'u) pass_state" where
  "started b =
     \<lparr>btor = b, cache = [], num_applies = 0, num_applies_total = 0, round_no = 1,
      trace = [TimeStamp, CacheNew]\<rparr>"

definition btor_eliminate_applies ::
  "('n, 'u) externals \<Rightarrow> ('n, 'u) Btor \<Rightarrow> (error + ('n, 'u) pass_state) option" where
  "btor_eliminate_applies X b =
     (if length (lambdas b) = 0 then Some (Inr (untouched b))
      else
        (let start = time_stamp X 0
         in case rounds X (started b) of
              None \<Rightarrow> None
            | Some (Inl e) \<Rightarrow> Some (Inl e)
            | Some (Inr s') \<Rightarrow> Some (after_rounds X start s')))"


subsection \<open>A node universe\<close>

text \<open>
  Modelled from the spec: the node universe (\<^verbatim>\<open>btornode.c\<close>) is missing (section 3).
  Hash-consing makes a node its structure, so a node is a term: a variable, a parameter,
  a lambda binding a parameter, or an application of a function to an argument.
\<close>

datatype node =
    Var nat
  | Param nat
  | Lambda nat node
  | Apply node node

text \<open>
  Modelled from the spec: the parameterized flag is set by the missing node constructors
  (section 3: true if the value of the node depends on a parameter not yet bound at this
  scope).
\<close>

fun free_params :: "node \<Rightarrow> nat list" where
  "free_params (Var v) = []"
| "free_params (Param p) = [p]"
| "free_params (Lambda p body) = removeAll p (free_params body)"
| "free_params (Apply f a) = free_params f @ free_params a"

definition node_parameterized :: "node \<Rightarrow> bool" where
  "node_parameterized n = (free_params n \<noteq> [])"

text \<open>
  Modelled from the spec: the lambda registry and the parent edges are kept by the missing
  node universe (section 3: the registry is the set of lambda nodes currently present in
  the formula; an application edge goes from an apply node to the lambda it applies).
  The formula is the list of its roots, and a node is present when a root contains it.
\<close>

fun subnodes :: "node \<Rightarrow> node list" where
  "subnodes (Var v) = [Var v]"
| "subnodes (Param p) = [Param p]"
| "subnodes (Lambda p body) = Lambda p body # subnodes body"
| "subnodes (Apply f a) = Apply f a # subnodes f @ subnodes a"

definition present :: "node list \<Rightarrow> node list" where
  "present rts = remdups (concat (map subnodes rts))"

fun is_lambda :: "node \<Rightarrow> bool" where
  "is_lambda (Lambda p body) = True"
| "is_lambda n = False"

fun applies :: "node \<Rightarrow> node \<Rightarrow> bool" where
  "applies fn (Apply f a) = (f = fn)"
| "applies fn n = False"

definition registry :: "node list \<Rightarrow> node list" where
  "registry rts = filter is_lambda (present rts)"

definition parent_table :: "node list \<Rightarrow> (node \<times> node list) list" where
  "parent_table rts =
     map (\<lambda>fn. (fn, filter (applies fn) (present rts))) (registry rts)"

text \<open>
  Modelled from the spec: the live reference counts are kept by the missing node universe
  (section 3: a node has a live reference count; section 6: acquire and release a
  reference).  Besides the roots of the formula the universe keeps, for every node, the
  number of references that are held on it from outside the graph: by a caller, by the
  substitution table, by the pair cache.  The count is an integer, so that a release too
  many shows as a negative count and is not lost.
\<close>

record node_graph =
  graph_roots :: "node list"
  graph_refs :: "(node \<times> int) list"

definition reference_count :: "(node, node_graph) Btor \<Rightarrow> node \<Rightarrow> int" where
  "reference_count b n = (case map_of (graph_refs (universe b)) n of None \<Rightarrow> 0 | Some k \<Rightarrow> k)"

definition add_references ::
  "int \<Rightarrow> (node, node_graph) Btor \<Rightarrow> node \<Rightarrow> (node, node_graph) Btor" where
  "add_references d b n =
     b\<lparr>universe := (universe b)
         \<lparr>graph_refs := AList.update n (reference_count b n + d) (graph_refs (universe b))\<rparr>\<rparr>"

definition formula :: "node list \<Rightarrow> (node, node_graph) Btor" where
  "formula rts =
     \<lparr>lambdas = registry rts, apply_parents = parent_table rts,
      substitutions = [], time_elimapplies = 0,
      universe = \<lparr>graph_roots = rts, graph_refs = []\<rparr>\<rparr>"

text \<open>
  Modelled from the spec: the pair of an application (section 3: an ordered pair of node
  identities, used as a cache key; section 4.6: a \<open>(lambda, argument)\<close> combination) is
  its function and its argument.
\<close>

fun pair_of :: "node \<Rightarrow> node pair" where
  "pair_of (Apply f a) = (f, a)"
| "pair_of n = (n, n)"

definition function_child :: "node \<Rightarrow> node" where
  "function_child n = fst (pair_of n)"

text \<open>
  Modelled from the spec: the reduction inside \<^verbatim>\<open>btor_beta_reduce_full\<close> is missing
  (section 2: one application node is reduced into its fully-reduced body, using a
  supplied cache; section 4.3: the bound parameter of the lambda is replaced by the
  argument throughout the body, recursively, consulting and populating the cache for
  repeated sub-reductions; section 4.6: \<open>get(pair)\<close>, \<open>put(pair, node)\<close>).

  \<open>reduce_full env n c\<close> reduces the node \<open>n\<close> under the bindings \<open>env\<close> of parameters
  to arguments, with the cache \<open>c\<close>, and returns the reduced node and the cache.  The
  argument of an application is reduced first.  An application of a lambda is then
  replaced by the reduced body of the lambda, with the parameter bound to the reduced
  argument.  When the lambda is closed, the pair of the lambda and the reduced argument
  determines the result: the cache is consulted under that pair, and after a reduction
  the result is stored under it.  A lambda with a free parameter is reduced without the
  cache, since its result depends on the bindings around it.  A function that is not a
  lambda node is reduced like any node; if a lambda comes out, its parameter is replaced
  by the reduced argument, and else the function is an uninterpreted symbol and the
  application stays.  The recursion follows the structure of the node, so every
  reduction ends.
\<close>

fun subst_param :: "nat \<Rightarrow> node \<Rightarrow> node \<Rightarrow> node" where
  "subst_param p arg (Var v) = Var v"
| "subst_param p arg (Param q) = (if q = p then arg else Param q)"
| "subst_param p arg (Lambda q body) =
     (if q = p then Lambda q body else Lambda q (subst_param p arg body))"
| "subst_param p arg (Apply f a) = Apply (subst_param p arg f) (subst_param p arg a)"

fun apply_reduced :: "node \<Rightarrow> node \<Rightarrow> node" where
  "apply_reduced (Lambda q body) a = subst_param q a body"
| "apply_reduced f a = Apply f a"

fun reduce_full ::
  "(nat \<times> node) list \<Rightarrow> node \<Rightarrow> node pair_cache \<Rightarrow> node \<times> node pair_cache" where
  "reduce_full env (Var v) c = (Var v, c)"
| "reduce_full env (Param p) c = ((case map_of env p of None \<Rightarrow> Param p | Some v \<Rightarrow> v), c)"
| "reduce_full env (Lambda p body) c =
     (case reduce_full (filter (\<lambda>(q, v). q \<noteq> p) env) body c of
        (body', c') \<Rightarrow> (Lambda p body', c'))"
| "reduce_full env (Apply (Lambda p body) a) c =
     (case reduce_full env a c of
        (a', c1) \<Rightarrow>
          if free_params (Lambda p body) = [] then
            (case map_of c1 (Lambda p body, a') of
               Some r \<Rightarrow> (r, c1)
             | None \<Rightarrow>
                 (case reduce_full ((p, a') # env) body c1 of
                    (r, c2) \<Rightarrow> (r, c2 @ [((Lambda p body, a'), r)])))
          else reduce_full ((p, a') # env) body c1)"
| "reduce_full env (Apply f a) c =
     (case reduce_full env f c of
        (f', c1) \<Rightarrow>
          (case reduce_full env a c1 of
             (a', c2) \<Rightarrow> (apply_reduced f' a', c2)))"

text \<open>
  A node is redex-free when no application in it applies a lambda node, that is, when
  nothing is left to reduce.  A node is first-order when functions are neither passed as
  arguments nor returned, as in the solver: the function of every application in it is a
  lambda node or a symbol, and neither an argument nor the body of a lambda is a lambda.
  On first-order nodes the reducer above returns redex-free nodes (lemma
  \<open>reduce_full_redex_free\<close>).
\<close>

fun redex_free :: "node \<Rightarrow> bool" where
  "redex_free (Var v) = True"
| "redex_free (Param p) = True"
| "redex_free (Lambda p body) = redex_free body"
| "redex_free (Apply (Lambda p body) a) = False"
| "redex_free (Apply f a) = (redex_free f \<and> redex_free a)"

fun first_order :: "node \<Rightarrow> bool" where
  "first_order (Var v) = True"
| "first_order (Param p) = True"
| "first_order (Lambda p body) = (first_order body \<and> \<not> is_lambda body)"
| "first_order (Apply (Lambda p body) a) =
     (first_order body \<and> \<not> is_lambda body \<and> first_order a \<and> \<not> is_lambda a)"
| "first_order (Apply (Var g) a) = (first_order a \<and> \<not> is_lambda a)"
| "first_order (Apply f a) = False"

definition reduced_value :: "node \<Rightarrow> bool" where
  "reduced_value v = (redex_free v \<and> \<not> is_lambda v)"

text \<open>
  Modelled from the spec: \<^verbatim>\<open>btor_beta_reduce_full\<close> is missing (section 4.3:
  \<open>reduce(applyNode, cache)\<close> returns a node with one caller-owned reference; section 4.6:
  the cache stores one reference per entry).  A call whose application is found in the
  cache under its own pair is served at once.  Otherwise the application is reduced.  The
  node returned gets one reference for the caller, and the value of every entry that the
  call added to the cache gets one for the entry.
\<close>

definition beta_reduce_full_node ::
  "(node, node_graph) Btor \<Rightarrow> node \<Rightarrow> node pair_cache \<Rightarrow>
   node \<times> node pair_cache \<times> (node, node_graph) Btor" where
  "beta_reduce_full_node b app c =
     (case map_of c (pair_of app) of
        Some r \<Rightarrow> (r, c, add_references 1 b r)
      | None \<Rightarrow>
          (case reduce_full [] app c of
             (r, c') \<Rightarrow>
               (r, c', foldl (add_references 1) b (r # map snd (drop (length c) c')))))"

text \<open>
  Modelled from the spec: \<^verbatim>\<open>btor_substitute_and_rebuild\<close> is missing (section 4.5: every
  occurrence of a key of the table is replaced by its value, chains are not followed, and
  nothing happens on an empty table).  The registry and the parent edges are those of the
  new roots.  The references held from outside the graph are not touched.
\<close>

fun rebuild_node :: "node subst_table \<Rightarrow> node \<Rightarrow> node" where
  "rebuild_node m (Var v) = (case map_of m (Var v) of Some r \<Rightarrow> r | None \<Rightarrow> Var v)"
| "rebuild_node m (Param p) = (case map_of m (Param p) of Some r \<Rightarrow> r | None \<Rightarrow> Param p)"
| "rebuild_node m (Lambda p body) =
     (case map_of m (Lambda p body) of
        Some r \<Rightarrow> r
      | None \<Rightarrow> Lambda p (rebuild_node m body))"
| "rebuild_node m (Apply f a) =
     (case map_of m (Apply f a) of
        Some r \<Rightarrow> r
      | None \<Rightarrow> Apply (rebuild_node m f) (rebuild_node m a))"

definition rebuild ::
  "(node, node_graph) Btor \<Rightarrow> node subst_table \<Rightarrow> (node, node_graph) Btor" where
  "rebuild b m =
     (if m = [] then b
      else
        (let rts = map (rebuild_node m) (graph_roots (universe b))
         in b\<lparr>lambdas := registry rts, apply_parents := parent_table rts,
              universe := (universe b)\<lparr>graph_roots := rts\<rparr>\<rparr>))"

text \<open>
  Modelled from the spec: the collaborators over this universe (section 6).  Taking a
  reference adds one to the count of the node and releasing one subtracts one, the
  \<open>k\<close>-th reading of the clock is \<open>k\<close>, and the debug checkers find nothing.  The argument
  is the build mode.
\<close>

definition node_universe :: "bool \<Rightarrow> (node, node_graph) externals" where
  "node_universe release_build =
     \<lparr>ndebug = release_build,
      parameterized = node_parameterized,
      time_stamp = (\<lambda>k. real k),
      beta_reduce_full = beta_reduce_full_node,
      substitute_and_rebuild = rebuild,
      node_copy = add_references 1,
      node_release = add_references (- 1),
      dbg_check_all_hash_tables_proxy_free = (\<lambda>b. True),
      dbg_check_all_hash_tables_simp_free = (\<lambda>b. True),
      dbg_check_unique_table_children_proxy_free = (\<lambda>b. True)\<rparr>"

subsection \<open>Formulas\<close>

text \<open>
  The formulas of the scenarios: the identity applied to a variable (scenario A), the
  lambda \<open>\<lambda>x. (\<lambda>y. y)(x)\<close> applied to a variable (scenario B), and that lambda alone, whose
  only application sits under a binder.
\<close>

definition identity_lambda :: node where
  "identity_lambda = Lambda 2 (Param 2)"

definition outer_lambda :: node where
  "outer_lambda = Lambda 1 (Apply identity_lambda (Param 1))"

definition app_A :: node where
  "app_A = Apply identity_lambda (Var 0)"

definition app_A1 :: node where
  "app_A1 = Apply identity_lambda (Var 1)"

definition app_B :: node where
  "app_B = Apply outer_lambda (Var 0)"

definition app_under_binder :: node where
  "app_under_binder = Apply identity_lambda (Param 1)"

definition scenario_A :: "(node, node_graph) Btor" where
  "scenario_A = formula [app_A]"

definition scenario_B :: "(node, node_graph) Btor" where
  "scenario_B = formula [app_B]"

definition under_binder :: "(node, node_graph) Btor" where
  "under_binder = formula [outer_lambda]"

text \<open>
  A formula with three applications to eliminate: the two scenarios and the identity
  applied to a second variable.  The application of the identity to the first variable
  occurs twice, as a node of the formula and inside the reduction of the outer
  application.
\<close>

definition scenario_reuse :: "(node, node_graph) Btor" where
  "scenario_reuse = formula [app_A, app_A1, app_B]"

subsection \<open>The states the runs end in\<close>

text \<open>
  The cache during the run on a formula that contains both scenarios and a second
  application of the identity: after the call for the outer application, which reduces
  the application of the identity to the first variable on its way, and after the call
  for the application of the identity to the second variable.
\<close>

definition cache_1 :: "node pair_cache" where
  "cache_1 = [((identity_lambda, Var 0), Var 0)]"

definition cache_2 :: "node pair_cache" where
  "cache_2 = cache_1 @ [((outer_lambda, Var 0), Var 0)]"

definition cache_3 :: "node pair_cache" where
  "cache_3 = cache_2 @ [((identity_lambda, Var 1), Var 1)]"

definition scenario_A_final :: "(node, node_graph) pass_state" where
  "scenario_A_final =
     \<lparr>btor = \<lparr>lambdas = [], apply_parents = [], substitutions = [],
               time_elimapplies = 1,
               universe = \<lparr>graph_roots = [Var 0], graph_refs = [(Var 0, 0)]\<rparr>\<rparr>,
      cache = [], num_applies = 0, num_applies_total = 1, round_no = 3,
      trace =
        [TimeStamp, CacheNew,
         InitSubstitutions,
         BetaReduceFull app_A [] (Var 0) cache_1,
         InsertSubstitution app_A (Var 0),
         NodeRelease (Var 0),
         Msg_round 1 1,
         SubstituteAndRebuild [(app_A, Var 0)],
         DeleteSubstitutions [(app_A, Var 0)],
         InitSubstitutions,
         Msg_round 0 2,
         SubstituteAndRebuild [],
         DeleteSubstitutions [],
         NodeRelease (Var 0), PairDelete (identity_lambda, Var 0),
         CacheDelete, TimeStamp, Msg_total 1 1]\<rparr>"

definition scenario_B_final :: "(node, node_graph) pass_state" where
  "scenario_B_final =
     \<lparr>btor = \<lparr>lambdas = [], apply_parents = [], substitutions = [],
               time_elimapplies = 1,
               universe = \<lparr>graph_roots = [Var 0], graph_refs = [(Var 0, 0)]\<rparr>\<rparr>,
      cache = [], num_applies = 0, num_applies_total = 1, round_no = 3,
      trace =
        [TimeStamp, CacheNew,
         InitSubstitutions,
         BetaReduceFull app_B [] (Var 0) cache_2,
         InsertSubstitution app_B (Var 0),
         NodeRelease (Var 0),
         Msg_round 1 1,
         SubstituteAndRebuild [(app_B, Var 0)],
         DeleteSubstitutions [(app_B, Var 0)],
         InitSubstitutions,
         Msg_round 0 2,
         SubstituteAndRebuild [],
         DeleteSubstitutions [],
         NodeRelease (Var 0), PairDelete (identity_lambda, Var 0),
         NodeRelease (Var 0), PairDelete (outer_lambda, Var 0),
         CacheDelete, TimeStamp, Msg_total 1 1]\<rparr>"

definition under_binder_final :: "(node, node_graph) pass_state" where
  "under_binder_final =
     \<lparr>btor = \<lparr>lambdas = [outer_lambda, identity_lambda],
               apply_parents = [(outer_lambda, []), (identity_lambda, [app_under_binder])],
               substitutions = [], time_elimapplies = 1,
               universe = \<lparr>graph_roots = [outer_lambda], graph_refs = []\<rparr>\<rparr>,
      cache = [], num_applies = 0, num_applies_total = 0, round_no = 2,
      trace =
        [TimeStamp, CacheNew,
         InitSubstitutions,
         Msg_round 0 1,
         SubstituteAndRebuild [],
         DeleteSubstitutions [],
         CacheDelete, TimeStamp, Msg_total 0 1]\<rparr>"

text \<open>The state in which a second run on the formula under a binder ends.\<close>

definition under_binder_rerun :: "(node, node_graph) pass_state" where
  "under_binder_rerun =
     under_binder_final\<lparr>btor := (btor under_binder_final)\<lparr>time_elimapplies := 2\<rparr>\<rparr>"

definition scenario_reuse_final :: "(node, node_graph) pass_state" where
  "scenario_reuse_final =
     \<lparr>btor = \<lparr>lambdas = [], apply_parents = [], substitutions = [],
               time_elimapplies = 1,
               universe = \<lparr>graph_roots = [Var 0, Var 1, Var 0],
                            graph_refs = [(Var 0, 0), (Var 1, 0)]\<rparr>\<rparr>,
      cache = [], num_applies = 0, num_applies_total = 3, round_no = 3,
      trace =
        [TimeStamp, CacheNew,
         InitSubstitutions,
         BetaReduceFull app_B [] (Var 0) cache_2,
         InsertSubstitution app_B (Var 0),
         NodeRelease (Var 0),
         BetaReduceFull app_A cache_2 (Var 0) cache_2,
         InsertSubstitution app_A (Var 0),
         NodeRelease (Var 0),
         BetaReduceFull app_A1 cache_2 (Var 1) cache_3,
         InsertSubstitution app_A1 (Var 1),
         NodeRelease (Var 1),
         Msg_round 3 1,
         SubstituteAndRebuild [(app_B, Var 0), (app_A, Var 0), (app_A1, Var 1)],
         DeleteSubstitutions [(app_B, Var 0), (app_A, Var 0), (app_A1, Var 1)],
         InitSubstitutions,
         Msg_round 0 2,
         SubstituteAndRebuild [],
         DeleteSubstitutions [],
         NodeRelease (Var 0), PairDelete (identity_lambda, Var 0),
         NodeRelease (Var 0), PairDelete (outer_lambda, Var 0),
         NodeRelease (Var 1), PairDelete (identity_lambda, Var 1),
         CacheDelete, TimeStamp, Msg_total 3 1]\<rparr>"

text \<open>
  A solver state that no node universe produces: the registry lists the identity twice.
\<close>

definition twice_registered :: "(node, node_graph) Btor" where
  "twice_registered =
     \<lparr>lambdas = [identity_lambda, identity_lambda],
      apply_parents = [(identity_lambda, [app_A])],
      substitutions = [], time_elimapplies = 0,
      universe = \<lparr>graph_roots = [app_A], graph_refs = []\<rparr>\<rparr>"

subsection \<open>Reading the record of calls\<close>

text \<open>
  The rounds of a run are its round messages: \<open>round_log\<close> lists, in order, the number of
  substitutions each round recorded and the value of the round counter.  \<open>rebuild_log\<close>
  lists the tables handed to the rebuild pass.
\<close>

fun round_of :: "'n event \<Rightarrow> (int \<times> int) list" where
  "round_of (Msg_round n r) = [(n, r)]"
| "round_of ev = []"

definition round_log :: "'n event list \<Rightarrow> (int \<times> int) list" where
  "round_log t = concat (map round_of t)"

fun rebuild_of :: "'n event \<Rightarrow> 'n subst_table list" where
  "rebuild_of (SubstituteAndRebuild m) = [m]"
| "rebuild_of ev = []"

definition rebuild_log :: "'n event list \<Rightarrow> 'n subst_table list" where
  "rebuild_log t = concat (map rebuild_of t)"

text \<open>
  An event is ground when it is neither a call of the reducer nor an insertion for a
  parameterized node.
\<close>

fun ground_event :: "('n, 'u) externals \<Rightarrow> 'n event \<Rightarrow> bool" where
  "ground_event X (BetaReduceFull app ci r co) = (\<not> parameterized X app)"
| "ground_event X (InsertSubstitution app r) = (\<not> parameterized X app)"
| "ground_event X ev = True"

text \<open>
  \<open>rebuilds_accumulated\<close> reads a record of calls from left to right, keeping the pairs
  inserted since the table was last initialised or deleted, and checks that every round
  message reports their number and that every call of the rebuild pass receives exactly
  them.
\<close>

fun scan_event :: "'n subst_table \<times> bool \<Rightarrow> 'n event \<Rightarrow> 'n subst_table \<times> bool" where
  "scan_event (acc, ok) InitSubstitutions = ([], ok)"
| "scan_event (acc, ok) (InsertSubstitution a r) = (acc @ [(a, r)], ok)"
| "scan_event (acc, ok) (Msg_round n r) = (acc, ok \<and> n = int (length acc))"
| "scan_event (acc, ok) (SubstituteAndRebuild m) = (acc, ok \<and> m = acc)"
| "scan_event (acc, ok) (DeleteSubstitutions m) = ([], ok)"
| "scan_event (acc, ok) ev = (acc, ok)"

definition rebuilds_accumulated :: "'n event list \<Rightarrow> bool" where
  "rebuilds_accumulated t = snd (foldl scan_event ([], True) t)"

text \<open>
  The summary of the rounds so far: one call of the rebuild pass per round, with the
  accumulated table, and the round counter counting the rounds from one.
\<close>

definition round_summary :: "('n, 'u) pass_state \<Rightarrow> bool" where
  "round_summary s =
     (rebuilds_accumulated (trace s) \<and>
      length (rebuild_log (trace s)) = length (round_log (trace s)) \<and>
      map snd (round_log (trace s)) = map int [1..<Suc (length (round_log (trace s)))] \<and>
      round_no s = int (length (round_log (trace s))) + 1)"

text \<open>
  The life of the substitution table in a record of calls.  A round creates the table,
  fills it, reports the number of its entries in its one round message, hands exactly
  these entries to the rebuild pass, once, and deletes the table; only then can the next
  round create one.  The flag turns false on any other order, and the phase \<open>NoTable\<close>
  at the end of a record says that the last table was deleted.
\<close>

datatype 'n table_phase =
    NoTable
  | Filling "'n subst_table"
  | Counted "'n subst_table"
  | Consumed

fun table_step :: "'n table_phase \<times> bool \<Rightarrow> 'n event \<Rightarrow> 'n table_phase \<times> bool" where
  "table_step (NoTable, ok) InitSubstitutions = (Filling [], ok)"
| "table_step (ph, ok) InitSubstitutions = (ph, False)"
| "table_step (Filling acc, ok) (InsertSubstitution a r) = (Filling (acc @ [(a, r)]), ok)"
| "table_step (ph, ok) (InsertSubstitution a r) = (ph, False)"
| "table_step (Filling acc, ok) (Msg_round n r) = (Counted acc, ok \<and> n = int (length acc))"
| "table_step (ph, ok) (Msg_round n r) = (ph, False)"
| "table_step (Counted acc, ok) (SubstituteAndRebuild m) = (Consumed, ok \<and> m = acc)"
| "table_step (ph, ok) (SubstituteAndRebuild m) = (ph, False)"
| "table_step (Consumed, ok) (DeleteSubstitutions m) = (NoTable, ok)"
| "table_step (ph, ok) (DeleteSubstitutions m) = (ph, False)"
| "table_step (ph, ok) ev = (ph, ok)"

definition table_lifecycle :: "'n event list \<Rightarrow> 'n table_phase \<times> bool" where
  "table_lifecycle t = foldl table_step (NoTable, True) t"

text \<open>
  The record of calls is tied to the solver by replaying it: starting from a solver state,
  every recorded call is made again, in order, on the state the calls before it have
  produced.  The flag says that every recorded call of the reducer returns the recorded
  node and cache, and that the tables recorded with the rebuild pass and with the deletion
  are the table \<^verbatim>\<open>btor->substitutions\<close> of the state they are called on.  The clock and
  the messages do not touch the solver.
\<close>

fun replay_event ::
  "('n, 'u) externals \<Rightarrow> ('n, 'u) Btor \<times> bool \<Rightarrow> 'n event \<Rightarrow> ('n, 'u) Btor \<times> bool" where
  "replay_event X (b, ok) InitSubstitutions = (btor_init_substitutions b, ok)"
| "replay_event X (b, ok) (BetaReduceFull app ci r co) =
     (snd (snd (beta_reduce_full X b app ci)),
      ok \<and> fst (beta_reduce_full X b app ci) = r \<and> fst (snd (beta_reduce_full X b app ci)) = co)"
| "replay_event X (b, ok) (InsertSubstitution app r) = (btor_insert_substitution X b app r, ok)"
| "replay_event X (b, ok) (NodeRelease n) = (node_release X b n, ok)"
| "replay_event X (b, ok) (SubstituteAndRebuild m) =
     (substitute_and_rebuild X b m, ok \<and> m = substitutions b)"
| "replay_event X (b, ok) (DeleteSubstitutions m) =
     (btor_delete_substitutions X b, ok \<and> m = substitutions b)"
| "replay_event X (b, ok) ev = (b, ok)"

definition replay ::
  "('n, 'u) externals \<Rightarrow> ('n, 'u) Btor \<Rightarrow> 'n event list \<Rightarrow> ('n, 'u) Btor \<times> bool" where
  "replay X b t = foldl (replay_event X) (b, True) t"

text \<open>
  The life of the pair cache in a record of calls: it is created once, every call of
  the reducer receives it as the previous call left it, and it is deleted once, after the
  last call.  The flag turns false on any other order.
\<close>

datatype 'n cache_phase = Absent | Live "'n pair_cache" | Gone

fun cache_step :: "'n cache_phase \<times> bool \<Rightarrow> 'n event \<Rightarrow> 'n cache_phase \<times> bool" where
  "cache_step (Absent, ok) CacheNew = (Live [], ok)"
| "cache_step (ph, ok) CacheNew = (ph, False)"
| "cache_step (Live c, ok) (BetaReduceFull app ci r co) = (Live co, ok \<and> ci = c)"
| "cache_step (ph, ok) (BetaReduceFull app ci r co) = (ph, False)"
| "cache_step (Live c, ok) CacheDelete = (Gone, ok)"
| "cache_step (ph, ok) CacheDelete = (ph, False)"
| "cache_step (ph, ok) ev = (ph, ok)"

definition cache_lifecycle :: "'n event list \<Rightarrow> 'n cache_phase \<times> bool" where
  "cache_lifecycle t = foldl cache_step (Absent, True) t"

text \<open>
  The calls of the reducer in a record: the application, the cache handed in, the node
  returned and the cache handed back.  The pairs a call has reduced are the keys of the
  entries it has added to the cache, and the reductions of a record are those of its
  calls, in order.
\<close>

fun call_of :: "'n event \<Rightarrow> ('n \<times> 'n pair_cache \<times> 'n \<times> 'n pair_cache) list" where
  "call_of (BetaReduceFull app ci r co) = [(app, ci, r, co)]"
| "call_of ev = []"

definition calls :: "'n event list \<Rightarrow> ('n \<times> 'n pair_cache \<times> 'n \<times> 'n pair_cache) list" where
  "calls t = concat (map call_of t)"

fun reduced_by :: "'n \<times> 'n pair_cache \<times> 'n \<times> 'n pair_cache \<Rightarrow> 'n pair list" where
  "reduced_by (app, ci, r, co) = map fst (drop (length ci) co)"

definition reductions :: "'n event list \<Rightarrow> 'n pair list" where
  "reductions t = concat (map reduced_by (calls t))"


subsection \<open>What the collaborators are relied on for\<close>

text \<open>
  The reducer and the reference counting leave \<^verbatim>\<open>btor->substitutions\<close> alone; so does the
  rebuild pass.
\<close>

definition keeps_substitutions :: "('n, 'u) externals \<Rightarrow> bool" where
  "keeps_substitutions X =
     ((\<forall>b app c. substitutions (snd (snd (beta_reduce_full X b app c))) = substitutions b) \<and>
      (\<forall>b n. substitutions (node_copy X b n) = substitutions b) \<and>
      (\<forall>b n. substitutions (node_release X b n) = substitutions b))"

definition rebuild_keeps_table :: "('n, 'u) externals \<Rightarrow> bool" where
  "rebuild_keeps_table X =
     (\<forall>b m. substitutions (substitute_and_rebuild X b m) = substitutions b)"

text \<open>
  Modelled from the spec: the reference counting of the missing node universe and what the
  missing collaborators do to it (sections 3, 4.3, 4.5 and 4.6).  \<open>refs b n\<close> is the number
  of references held on the node \<open>n\<close> in the solver state \<open>b\<close>.  Taking a reference adds
  one and releasing one subtracts one.  The reducer returns a node with one reference
  owned by the caller, and every entry it adds to the cache holds one reference to its
  value.  The rebuild pass moves the references of the graph along with the edges and
  changes none that is held from outside.  The table \<^verbatim>\<open>btor->substitutions\<close> and the
  statistic hold no reference by themselves: the references of the table are taken by
  \<^verbatim>\<open>btor_insert_substitution\<close> and given back by \<^verbatim>\<open>btor_delete_substitutions\<close>.
\<close>

definition counts_references ::
  "(('n, 'u) Btor \<Rightarrow> 'n \<Rightarrow> int) \<Rightarrow> ('n, 'u) externals \<Rightarrow> bool" where
  "counts_references refs X =
     ((\<forall>b n m. refs (node_copy X b n) m = refs b m + (if m = n then 1 else 0)) \<and>
      (\<forall>b n m. refs (node_release X b n) m = refs b m - (if m = n then 1 else 0)) \<and>
      (\<forall>b app c m.
         refs (snd (snd (beta_reduce_full X b app c))) m =
           refs b m + (if m = fst (beta_reduce_full X b app c) then 1 else 0) +
           int (count_list (map snd (fst (snd (beta_reduce_full X b app c)))) m) -
           int (count_list (map snd c) m)) \<and>
      (\<forall>b t m. refs (substitute_and_rebuild X b t) m = refs b m) \<and>
      (\<forall>b t m. refs (b\<lparr>substitutions := t\<rparr>) m = refs b m) \<and>
      (\<forall>b d m. refs (b\<lparr>time_elimapplies := d\<rparr>) m = refs b m))"

text \<open>
  Between two rounds the references that the pass still holds are those of the entries of
  the pair cache, and nothing else: the count of every node is what it was when the pass
  was entered on the solver state \<open>b\<close>, plus the number of cache entries with that value.
\<close>

definition cache_holds_the_rest ::
  "(('n, 'u) Btor \<Rightarrow> 'n \<Rightarrow> int) \<Rightarrow> ('n, 'u) Btor \<Rightarrow> ('n, 'u) pass_state \<Rightarrow> bool" where
  "cache_holds_the_rest refs b t =
     (\<forall>n. refs (btor t) n = refs b n + int (count_list (map snd (cache t)) n))"


text \<open>
  Modelled from the spec: the invariants of the node universe are not in the source
  (section 3: the registry is a set of lambdas, an application has one function, which it
  keeps, and the parent edges of a node form a set).  \<open>fc\<close> gives the function child of an
  application.  \<open>preserves_well_formed\<close> says that the collaborators keep the invariants.
\<close>

definition well_formed :: "('n \<Rightarrow> 'n) \<Rightarrow> ('n, 'u) Btor \<Rightarrow> bool" where
  "well_formed fc b =
     (distinct (lambdas b) \<and>
      (\<forall>fn. distinct (iter_apply_parent b fn)) \<and>
      (\<forall>fn. list_all (\<lambda>app. fc app = fn) (iter_apply_parent b fn)))"

definition preserves_well_formed :: "('n \<Rightarrow> 'n) \<Rightarrow> ('n, 'u) externals \<Rightarrow> bool" where
  "preserves_well_formed fc X =
     ((\<forall>b app c. well_formed fc b \<longrightarrow>
          well_formed fc (snd (snd (beta_reduce_full X b app c)))) \<and>
      (\<forall>b n. well_formed fc b \<longrightarrow> well_formed fc (node_copy X b n)) \<and>
      (\<forall>b n. well_formed fc b \<longrightarrow> well_formed fc (node_release X b n)) \<and>
      (\<forall>b m. well_formed fc b \<longrightarrow> well_formed fc (substitute_and_rebuild X b m)))"

text \<open>The keys of the substitution table of a state.\<close>

definition keys :: "('n, 'u) pass_state \<Rightarrow> 'n list" where
  "keys s = map fst (substitutions (btor s))"

section \<open>Properties\<close>

subsection \<open>The early return\<close>

lemma early_return:
  "lambdas b = [] \<Longrightarrow> btor_eliminate_applies X b = Some (Inr (untouched b))"
  by (simp add: btor_eliminate_applies_def)

lemma registry_of_variable: "lambdas (formula [Var 0]) = []"
  by (simp add: formula_def registry_def present_def)

text \<open>
  C4.  When the lambda registry is empty the pass returns at once: the run has no round,
  it made no call at all, and the solver, hence the graph and its reachable nodes, is the
  one it was given.
\<close>

theorem empty_registry_is_noop:
  assumes "lambdas b = []"
  shows "\<exists>s. btor_eliminate_applies X b = Some (Inr s) \<and>
             round_log (trace s) = [] \<and> trace s = [] \<and> btor s = b"
  using early_return [OF assms, of X] by (simp add: untouched_def round_log_def)

theorem empty_registry_is_noop_witness:
  "lambdas (formula [Var 0]) = [] \<and>
   (\<exists>s. btor_eliminate_applies (node_universe False) (formula [Var 0]) = Some (Inr s) \<and>
        round_log (trace s) = [] \<and> trace s = [] \<and> btor s = formula [Var 0])"
  using empty_registry_is_noop [OF registry_of_variable, of "node_universe False"]
    registry_of_variable by simp

text \<open>
  C10.  On the early return no pair cache is allocated, no diagnostic is emitted, the
  clock is not read, and the statistic \<^verbatim>\<open>btor->time.elimapplies\<close> keeps its value;
  nothing of the solver changes.
\<close>

theorem early_return_touches_nothing:
  assumes "lambdas b = []"
  shows "\<exists>s. btor_eliminate_applies X b = Some (Inr s) \<and>
             CacheNew \<notin> set (trace s) \<and> TimeStamp \<notin> set (trace s) \<and>
             round_log (trace s) = [] \<and>
             (\<forall>n d. Msg_total n d \<notin> set (trace s)) \<and>
             time_elimapplies (btor s) = time_elimapplies b \<and> btor s = b"
  using early_return [OF assms, of X] by (simp add: untouched_def round_log_def)

theorem early_return_touches_nothing_witness:
  "\<exists>s. btor_eliminate_applies (node_universe True) (formula [Var 0]) = Some (Inr s) \<and>
       CacheNew \<notin> set (trace s) \<and> TimeStamp \<notin> set (trace s) \<and>
       round_log (trace s) = [] \<and>
       (\<forall>n d. Msg_total n d \<notin> set (trace s)) \<and>
       time_elimapplies (btor s) = time_elimapplies (formula [Var 0]) \<and>
       btor s = formula [Var 0]"
  using early_return_touches_nothing [OF registry_of_variable, of "node_universe True"]
  by simp

subsection \<open>The runs of the scenarios\<close>

lemma scenario_A_run:
  "btor_eliminate_applies (node_universe False) scenario_A = Some (Inr scenario_A_final)"
  by code_simp

lemma scenario_A_two_rounds:
  "round_log (trace scenario_A_final) = [(1, 1), (0, 2)] \<and>
   rebuild_log (trace scenario_A_final) = [[(app_A, Var 0)], []] \<and>
   graph_roots (universe (btor scenario_A_final)) = [Var 0]"
  by (simp add: scenario_A_final_def round_log_def rebuild_log_def)

lemma scenario_B_run:
  "btor_eliminate_applies (node_universe False) scenario_B = Some (Inr scenario_B_final)"
  by code_simp

lemma under_binder_run:
  "btor_eliminate_applies (node_universe True) under_binder = Some (Inr under_binder_final)"
  by code_simp

lemma scenario_reuse_run:
  "btor_eliminate_applies (node_universe False) scenario_reuse =
     Some (Inr scenario_reuse_final)"
  by code_simp

lemma scenario_reuse_registry: "lambdas scenario_reuse \<noteq> []"
  by (simp add: scenario_reuse_def formula_def registry_def present_def app_A_def app_A1_def
      app_B_def outer_lambda_def identity_lambda_def)

lemma node_universe_release [simp]:
  "node_release (node_universe r) = add_references (- 1)"
  by (simp add: node_universe_def)

lemma node_universe_copy [simp]: "node_copy (node_universe r) = add_references 1"
  by (simp add: node_universe_def)

lemma node_universe_reducer [simp]:
  "beta_reduce_full (node_universe r) = beta_reduce_full_node"
  by (simp add: node_universe_def)

lemma add_references_fields [simp]:
  "lambdas (add_references d b n) = lambdas b"
  "apply_parents (add_references d b n) = apply_parents b"
  "substitutions (add_references d b n) = substitutions b"
  "time_elimapplies (add_references d b n) = time_elimapplies b"
  "graph_roots (universe (add_references d b n)) = graph_roots (universe b)"
  by (simp_all add: add_references_def)

lemma foldl_add_references_fields [simp]:
  "lambdas (foldl (add_references d) b ns) = lambdas b"
  "apply_parents (foldl (add_references d) b ns) = apply_parents b"
  "substitutions (foldl (add_references d) b ns) = substitutions b"
  "time_elimapplies (foldl (add_references d) b ns) = time_elimapplies b"
  "graph_roots (universe (foldl (add_references d) b ns)) = graph_roots (universe b)"
  by (induction ns arbitrary: b) simp_all

lemma beta_reduce_full_node_fields [simp]:
  "lambdas (snd (snd (beta_reduce_full_node b app c))) = lambdas b"
  "apply_parents (snd (snd (beta_reduce_full_node b app c))) = apply_parents b"
  "substitutions (snd (snd (beta_reduce_full_node b app c))) = substitutions b"
  by (simp_all add: beta_reduce_full_node_def split: option.splits prod.splits)

lemma node_universe_rebuild_empty [simp]: "substitute_and_rebuild (node_universe r) b [] = b"
  by (simp add: node_universe_def rebuild_def)

lemma node_universe_parameterized [simp]:
  "parameterized (node_universe r) = node_parameterized"
  by (simp add: node_universe_def)

subsection \<open>Invariants of the loops\<close>

lemma collect_parents_invariant:
  assumes "collect_parents X apps s = Inr s'"
    and "I s"
    and "\<And>app t t'. I t \<Longrightarrow> \<not> parameterized X app \<Longrightarrow> eliminate_apply X app t = Inr t' \<Longrightarrow> I t'"
  shows "I s'"
  using assms(1,2)
proof (induction apps arbitrary: s)
  case Nil
  then show ?case by simp
next
  case (Cons app apps)
  show ?case
  proof (cases "parameterized X app")
    case True
    with Cons show ?thesis by simp
  next
    case False
    with Cons.prems obtain t where t: "eliminate_apply X app s = Inr t"
      and rest: "collect_parents X apps t = Inr s'"
      by (auto split: sum.splits)
    from assms(3) [OF Cons.prems(2) False t] have "I t" .
    with Cons.IH rest show ?thesis by blast
  qed
qed

lemma collect_lambdas_invariant:
  assumes "collect_lambdas X fns s = Inr s'"
    and "I s"
    and "\<And>app t t'. I t \<Longrightarrow> \<not> parameterized X app \<Longrightarrow> eliminate_apply X app t = Inr t' \<Longrightarrow> I t'"
  shows "I s'"
  using assms(1,2)
proof (induction fns arbitrary: s)
  case Nil
  then show ?case by simp
next
  case (Cons fn fns)
  from Cons.prems obtain t where t: "collect_parents X (iter_apply_parent (btor s) fn) s = Inr t"
    and rest: "collect_lambdas X fns t = Inr s'"
    by (auto split: sum.splits)
  have "I t" using t Cons.prems(2) assms(3) by (rule collect_parents_invariant)
  with Cons.IH rest show ?case by blast
qed

lemma one_round_hoare:
  assumes "one_round X s = Inr s'"
    and "J s"
    and "\<And>t. J t \<Longrightarrow> K (round_begin t)"
    and "\<And>app t t'. K t \<Longrightarrow> \<not> parameterized X app \<Longrightarrow> eliminate_apply X app t = Inr t' \<Longrightarrow> K t'"
    and "\<And>t. K t \<Longrightarrow> Q (round_end X t)"
  shows "Q s'"
proof -
  from assms(1) obtain t where t: "collect_lambdas X (lambdas (btor (round_begin s))) (round_begin s) = Inr t"
    and s': "s' = round_end X t"
    by (auto simp: one_round_def Let_def split: sum.splits)
  have "K t" using t assms(3) [OF assms(2)] assms(4) by (rule collect_lambdas_invariant)
  with assms(5) s' show ?thesis by simp
qed

lemma rounds_until_empty:
  assumes run: "rounds X s = Some r"
    and res: "r = Inr s'"
    and init: "I s"
    and step: "\<And>t t'. I t \<Longrightarrow> one_round X t = Inr t' \<Longrightarrow> 0 < num_applies t' \<Longrightarrow> I t'"
  shows "\<exists>s0. I s0 \<and> one_round X s0 = Inr s' \<and> \<not> 0 < num_applies s'"
proof -
  from step have step': "\<forall>t t'. I t \<longrightarrow> one_round X t = Inr t' \<longrightarrow> 0 < num_applies t' \<longrightarrow> I t'"
    by blast
  from run res init step' show ?thesis
  proof (induction X s r rule: rounds.raw_induct [rotated -1, consumes 1, case_names 1])
    case (1 rounds X s r)
    from "1.hyps" "1.prems"(1) obtain t where t: "one_round X s = Inr t"
      and rest: "(if 0 < num_applies t then rounds X t else Some (Inr t)) = Some r"
      by (auto split: sum.splits)
    show ?case
    proof (cases "0 < num_applies t")
      case True
      have It: "I t" using "1.prems"(2,3) t True by blast
      from True rest have "rounds X t = Some r" by simp
      then show ?thesis using "1.prems"(1) It "1.prems"(3) by (rule "1.IH")
    next
      case False
      with rest "1.prems"(1) have "t = s'" by simp
      with t False "1.prems"(2) show ?thesis by blast
    qed
  qed
qed

lemma pass_until_empty:
  assumes run: "btor_eliminate_applies X b = Some (Inr s)"
    and nonempty: "lambdas b \<noteq> []"
    and init: "I (started b)"
    and round: "\<And>t t'. I t \<Longrightarrow> one_round X t = Inr t' \<Longrightarrow> 0 < num_applies t' \<Longrightarrow> I t'"
  shows "\<exists>s0 s1. I s0 \<and> one_round X s0 = Inr s1 \<and> \<not> 0 < num_applies s1 \<and>
           after_rounds X (time_stamp X 0) s1 = Inr s"
proof -
  from run nonempty obtain s1 where r: "rounds X (started b) = Some (Inr s1)"
    and a: "after_rounds X (time_stamp X 0) s1 = Inr s"
    by (auto simp: btor_eliminate_applies_def Let_def split: option.splits sum.splits)
  have "\<exists>s0. I s0 \<and> one_round X s0 = Inr s1 \<and> \<not> 0 < num_applies s1"
    using r refl init round by (rule rounds_until_empty)
  with a show ?thesis by blast
qed

lemma pass_invariant:
  assumes run: "btor_eliminate_applies X b = Some (Inr s)"
    and nonempty: "lambdas b \<noteq> []"
    and init: "I (started b)"
    and "begin": "\<And>t. I t \<Longrightarrow> I (round_begin t)"
    and step: "\<And>app t t'. I t \<Longrightarrow> \<not> parameterized X app \<Longrightarrow> eliminate_apply X app t = Inr t' \<Longrightarrow> I t'"
    and "end": "\<And>t. I t \<Longrightarrow> I (round_end X t)"
  shows "\<exists>s0 s1. I s0 \<and> one_round X s0 = Inr s1 \<and> I s1 \<and> \<not> 0 < num_applies s1 \<and>
           after_rounds X (time_stamp X 0) s1 = Inr s"
proof -
  have round: "I t'" if "I t" "one_round X t = Inr t'" for t t'
    using that(2,1) "begin" step "end" by (rule one_round_hoare)
  have "\<exists>s0 s1. I s0 \<and> one_round X s0 = Inr s1 \<and> \<not> 0 < num_applies s1 \<and>
          after_rounds X (time_stamp X 0) s1 = Inr s"
    using run nonempty init round by (rule pass_until_empty)
  with round show ?thesis by blast
qed

subsection \<open>Only ground applications are reduced\<close>

lemma list_all_ground_teardown:
  "list_all (ground_event X) (concat (map (\<lambda>(p, v). [NodeRelease v, PairDelete p]) c))"
  by (induction c) auto

text \<open>
  C9.  The pass never calls the beta reducer on a parameterized application and never
  records a substitution for one: in a run that returns, the node of every call of the
  reducer and of every insertion into the substitution table is not parameterized.  The
  loop over the apply parents passes over a parameterized parent without any effect.
\<close>

theorem only_ground_applications_reduced:
  assumes "btor_eliminate_applies X b = Some (Inr s)"
  shows "(\<forall>app ci r co. BetaReduceFull app ci r co \<in> set (trace s) \<longrightarrow> \<not> parameterized X app) \<and>
         (\<forall>app r. InsertSubstitution app r \<in> set (trace s) \<longrightarrow> \<not> parameterized X app) \<and>
         (\<forall>app apps t. parameterized X app \<longrightarrow>
            collect_parents X (app # apps) t = collect_parents X apps t)"
proof -
  have all: "list_all (ground_event X) (trace s)"
  proof (cases "lambdas b = []")
    case True
    with assms show ?thesis by (auto simp: btor_eliminate_applies_def untouched_def)
  next
    case False
    let ?I = "\<lambda>t :: ('a, 'b) pass_state. list_all (ground_event X) (trace t)"
    have "\<exists>s0 s1. ?I s0 \<and> one_round X s0 = Inr s1 \<and> ?I s1 \<and> \<not> 0 < num_applies s1 \<and>
           after_rounds X (time_stamp X 0) s1 = Inr s"
      using assms False
    proof (rule pass_invariant)
      show "?I (started b)" by (simp add: started_def)
    next
      fix t assume "?I t" then show "?I (round_begin t)" by (simp add: round_begin_def)
    next
      fix app t t'
      assume "?I t" "\<not> parameterized X app" "eliminate_apply X app t = Inr t'"
      then show "?I t'"
        by (auto simp: eliminate_apply_def split: prod.splits if_splits)
    next
      fix t assume "?I t" then show "?I (round_end X t)" by (simp add: round_end_def)
    qed
    then obtain s1 where "?I s1" and "after_rounds X (time_stamp X 0) s1 = Inr s" by blast
    then show ?thesis
      by (auto simp: after_rounds_def finish_def cache_teardown_def Let_def
          list_all_ground_teardown split: if_splits)
  qed
  show ?thesis
  proof (intro conjI allI impI)
    fix app ci r co assume "BetaReduceFull app ci r co \<in> set (trace s)"
    with all have "ground_event X (BetaReduceFull app ci r co)" by (auto simp: list_all_iff)
    then show "\<not> parameterized X app" by simp
  next
    fix app r assume "InsertSubstitution app r \<in> set (trace s)"
    with all have "ground_event X (InsertSubstitution app r)" by (auto simp: list_all_iff)
    then show "\<not> parameterized X app" by simp
  next
    fix app apps and t :: "('a, 'b) pass_state"
    assume "parameterized X app"
    then show "collect_parents X (app # apps) t = collect_parents X apps t" by simp
  qed
qed


theorem only_ground_applications_reduced_witness:
  "btor_eliminate_applies (node_universe False) scenario_B = Some (Inr scenario_B_final) \<and>
   BetaReduceFull app_B [] (Var 0) cache_2 \<in> set (trace scenario_B_final) \<and>
   InsertSubstitution app_B (Var 0) \<in> set (trace scenario_B_final) \<and>
   \<not> parameterized (node_universe False) app_B \<and>
   iter_apply_parent scenario_B identity_lambda = [app_under_binder] \<and>
   parameterized (node_universe False) app_under_binder \<and>
   map fst (calls (trace scenario_B_final)) = [app_B]"
proof -
  have b: "BetaReduceFull app_B [] (Var 0) cache_2 \<in> set (trace scenario_B_final)"
    and i: "InsertSubstitution app_B (Var 0) \<in> set (trace scenario_B_final)"
    and c: "map fst (calls (trace scenario_B_final)) = [app_B]"
    by (simp_all add: scenario_B_final_def calls_def)
  have p: "iter_apply_parent scenario_B identity_lambda = [app_under_binder]"
    by (simp add: iter_apply_parent_def scenario_B_def formula_def parent_table_def
        registry_def present_def app_B_def app_under_binder_def outer_lambda_def
        identity_lambda_def)
  have u: "parameterized (node_universe False) app_under_binder"
    by (simp add: node_parameterized_def app_under_binder_def identity_lambda_def)
  from only_ground_applications_reduced [OF scenario_B_run] b i
  have "\<not> parameterized (node_universe False) app_B"
    by blast
  with b i c p u scenario_B_run show ?thesis by simp
qed

subsection \<open>No ground application remains\<close>

lemma eliminate_apply_count:
  "eliminate_apply X app s = Inr t \<Longrightarrow> num_applies t = num_applies s + 1"
  by (auto simp: eliminate_apply_def split: prod.splits if_splits)

lemma collect_parents_count:
  "collect_parents X apps s = Inr s' \<Longrightarrow>
     num_applies s \<le> num_applies s' \<and>
     (num_applies s' \<le> num_applies s \<longrightarrow> s' = s \<and> list_all (parameterized X) apps)"
proof (induction apps arbitrary: s)
  case Nil
  then show ?case by simp
next
  case (Cons app apps)
  show ?case
  proof (cases "parameterized X app")
    case True
    with Cons show ?thesis by simp
  next
    case False
    with Cons.prems obtain t where t: "eliminate_apply X app s = Inr t"
      and rest: "collect_parents X apps t = Inr s'"
      by (auto split: sum.splits)
    from Cons.IH [OF rest] eliminate_apply_count [OF t] show ?thesis by simp
  qed
qed

lemma collect_lambdas_count:
  "collect_lambdas X fns s = Inr s' \<Longrightarrow>
     num_applies s \<le> num_applies s' \<and>
     (num_applies s' \<le> num_applies s \<longrightarrow>
        s' = s \<and> list_all (\<lambda>fn. list_all (parameterized X) (iter_apply_parent (btor s) fn)) fns)"
proof (induction fns arbitrary: s)
  case Nil
  then show ?case by simp
next
  case (Cons fn fns)
  from Cons.prems obtain t where t: "collect_parents X (iter_apply_parent (btor s) fn) s = Inr t"
    and rest: "collect_lambdas X fns t = Inr s'"
    by (auto split: sum.splits)
  from Cons.IH [OF rest] collect_parents_count [OF t] show ?case by auto
qed

lemma no_ground_apply_parent_fields:
  "lambdas b' = lambdas b \<Longrightarrow> apply_parents b' = apply_parents b \<Longrightarrow>
   no_ground_apply_parent X b' = no_ground_apply_parent X b"
  by (simp add: no_ground_apply_parent_def iter_apply_parent_def)

lemma empty_round:
  assumes "one_round X s = Inr s'" and "\<not> 0 < num_applies s'"
  shows "s' = round_end X (round_begin s) \<and> no_ground_apply_parent X (btor s)"
proof -
  from assms(1) obtain t
    where t: "collect_lambdas X (lambdas (btor (round_begin s))) (round_begin s) = Inr t"
      and s': "s' = round_end X t"
    by (auto simp: one_round_def Let_def split: sum.splits)
  have "num_applies s' = num_applies t" using s' by (simp add: round_end_def)
  with assms(2) have "num_applies t \<le> num_applies (round_begin s)"
    by (simp add: round_begin_def)
  with collect_lambdas_count [OF t]
  have eq: "t = round_begin s"
    and all: "list_all (\<lambda>fn. list_all (parameterized X)
                (iter_apply_parent (btor (round_begin s)) fn)) (lambdas (btor (round_begin s)))"
    by blast+
  from all have "no_ground_apply_parent X (btor (round_begin s))"
    by (simp add: no_ground_apply_parent_def)
  moreover have "no_ground_apply_parent X (btor (round_begin s)) = no_ground_apply_parent X (btor s)"
    by (rule no_ground_apply_parent_fields)
       (simp_all add: round_begin_def btor_init_substitutions_def)
  ultimately show ?thesis using eq s' by simp
qed

lemma foldl_preserves:
  assumes "\<And>b n. P b \<Longrightarrow> P (f b n)" and "P b"
  shows "P (foldl f b ns)"
  using assms(2) by (induction ns arbitrary: b) (simp_all add: assms(1))

lemma delete_substitutions_no_ground:
  assumes "\<And>b n. no_ground_apply_parent X b \<Longrightarrow> no_ground_apply_parent X (node_release X b n)"
    and "no_ground_apply_parent X b"
  shows "no_ground_apply_parent X (btor_delete_substitutions X b)"
proof -
  have "no_ground_apply_parent X (foldl (node_release X) b (map snd (substitutions b)))"
    using assms by (rule foldl_preserves)
  then show ?thesis
    by (simp add: btor_delete_substitutions_def no_ground_apply_parent_def iter_apply_parent_def)
qed

lemma after_rounds_no_ground:
  assumes release: "\<And>b n. no_ground_apply_parent X b \<Longrightarrow> no_ground_apply_parent X (node_release X b n)"
    and before: "ndebug X \<Longrightarrow> no_ground_apply_parent X (btor s1)"
    and after: "after_rounds X start s1 = Inr s"
  shows "no_ground_apply_parent X (btor s)"
proof -
  from before after have g: "no_ground_apply_parent X (btor s1)"
    by (cases "ndebug X") (auto simp: after_rounds_def split: if_splits)
  have "no_ground_apply_parent X (foldl (node_release X) (btor s1) (map snd (cache s1)))"
    using release g by (rule foldl_preserves)
  with after show ?thesis
    by (auto simp: after_rounds_def finish_def cache_teardown_def Let_def
        no_ground_apply_parent_def iter_apply_parent_def split: if_splits)
qed

lemma no_ground_add_references [simp]:
  "no_ground_apply_parent X (add_references d b n) = no_ground_apply_parent X b"
  by (rule no_ground_apply_parent_fields) simp_all

text \<open>
  C1.  When the pass returns, every apply parent of every lambda of the registry is
  parameterized.  In a debug build the assertion of lines 82 to 93 ensures it; in a
  release build it rests on the rebuild pass, called with an empty table, adding no
  ground application parent.  In both builds, releasing a reference must not add one
  either.
\<close>

theorem no_ground_application_remains:
  assumes run: "btor_eliminate_applies X b = Some (Inr s)"
    and release: "\<And>b n. no_ground_apply_parent X b \<Longrightarrow>
                   no_ground_apply_parent X (node_release X b n)"
    and rebuild: "\<And>b. ndebug X \<Longrightarrow> no_ground_apply_parent X b \<Longrightarrow>
                   no_ground_apply_parent X (substitute_and_rebuild X b [])"
  shows "\<forall>fn \<in> set (lambdas (btor s)). \<forall>app \<in> set (iter_apply_parent (btor s) fn).
           parameterized X app"
proof -
  have "no_ground_apply_parent X (btor s)"
  proof (cases "lambdas b = []")
    case True
    with run show ?thesis
      by (auto simp: btor_eliminate_applies_def untouched_def no_ground_apply_parent_def)
  next
    case False
    have "\<exists>s0 s1. True \<and> one_round X s0 = Inr s1 \<and> True \<and> \<not> 0 < num_applies s1 \<and>
            after_rounds X (time_stamp X 0) s1 = Inr s"
      using run False by (rule pass_invariant [where I = "\<lambda>t. True"]) simp_all
    then obtain s0 s1 where last: "one_round X s0 = Inr s1" "\<not> 0 < num_applies s1"
      and after: "after_rounds X (time_stamp X 0) s1 = Inr s"
      by blast
    from empty_round [OF last]
    have s1: "s1 = round_end X (round_begin s0)" and g0: "no_ground_apply_parent X (btor s0)"
      by simp_all
    have "no_ground_apply_parent X (btor s1)" if nd: "ndebug X"
    proof -
      let ?b0 = "btor_init_substitutions (btor s0)"
      have "no_ground_apply_parent X ?b0 = no_ground_apply_parent X (btor s0)"
        by (rule no_ground_apply_parent_fields) (simp_all add: btor_init_substitutions_def)
      with g0 have "no_ground_apply_parent X ?b0" by simp
      with rebuild [OF nd] have "no_ground_apply_parent X (substitute_and_rebuild X ?b0 [])" .
      with release have "no_ground_apply_parent X
          (btor_delete_substitutions X (substitute_and_rebuild X ?b0 []))"
        by (rule delete_substitutions_no_ground)
      then show ?thesis
        by (simp add: s1 round_end_def round_begin_def btor_init_substitutions_def)
    qed
    with release show ?thesis using after by (rule after_rounds_no_ground)
  qed
  then show ?thesis
    by (simp add: no_ground_apply_parent_def list_all_iff)
qed


theorem no_ground_application_remains_witness:
  "btor_eliminate_applies (node_universe True) under_binder = Some (Inr under_binder_final) \<and>
   identity_lambda \<in> set (lambdas (btor under_binder_final)) \<and>
   iter_apply_parent (btor under_binder_final) identity_lambda = [app_under_binder] \<and>
   parameterized (node_universe True) app_under_binder"
proof -
  have l: "identity_lambda \<in> set (lambdas (btor under_binder_final))"
    and p: "iter_apply_parent (btor under_binder_final) identity_lambda = [app_under_binder]"
    by (simp_all add: under_binder_final_def iter_apply_parent_def outer_lambda_def
        identity_lambda_def)
  have "\<forall>fn \<in> set (lambdas (btor under_binder_final)).
          \<forall>app \<in> set (iter_apply_parent (btor under_binder_final) fn).
            parameterized (node_universe True) app"
    using under_binder_run by (rule no_ground_application_remains) simp_all
  with l p under_binder_run show ?thesis by auto
qed

subsection \<open>The rounds and the rebuild pass\<close>

lemma keeps_substitutions_node_universe: "keeps_substitutions (node_universe r)"
  by (simp add: keeps_substitutions_def)

lemma scenario_B_registry: "lambdas scenario_B \<noteq> []"
  by (simp add: scenario_B_def formula_def registry_def present_def app_B_def
      outer_lambda_def identity_lambda_def)

lemma round_log_append [simp]: "round_log (t @ u) = round_log t @ round_log u"
  by (simp add: round_log_def)

lemma rebuild_log_append [simp]: "rebuild_log (t @ u) = rebuild_log t @ rebuild_log u"
  by (simp add: rebuild_log_def)

lemma round_log_Cons [simp]: "round_log (ev # t) = round_of ev @ round_log t"
  by (simp add: round_log_def)

lemma rebuild_log_Cons [simp]: "rebuild_log (ev # t) = rebuild_of ev @ rebuild_log t"
  by (simp add: rebuild_log_def)

lemma round_log_Nil [simp]: "round_log [] = []"
  by (simp add: round_log_def)

lemma rebuild_log_Nil [simp]: "rebuild_log [] = []"
  by (simp add: rebuild_log_def)

lemma reductions_simps [simp]:
  "reductions [] = []"
  "reductions (ev # t) = concat (map reduced_by (call_of ev)) @ reductions t"
  "reductions (t @ u) = reductions t @ reductions u"
  by (simp_all add: reductions_def calls_def)

lemma calls_simps [simp]:
  "calls [] = []" "calls (ev # t) = call_of ev @ calls t" "calls (t @ u) = calls t @ calls u"
  by (simp_all add: calls_def)

lemma scan_event_silent [simp]:
  "scan_event st TimeStamp = st"
  "scan_event st CacheNew = st"
  "scan_event st (BetaReduceFull a ci r co) = st"
  "scan_event st (NodeRelease v) = st"
  "scan_event st (PairDelete p) = st"
  "scan_event st CacheDelete = st"
  "scan_event st (Msg_total n d) = st"
  by (cases st; simp)+

lemma teardown_events_silent:
  "round_log (concat (map (\<lambda>(p, v). [NodeRelease v, PairDelete p]) c)) = [] \<and>
   rebuild_log (concat (map (\<lambda>(p, v). [NodeRelease v, PairDelete p]) c)) = [] \<and>
   foldl scan_event st (concat (map (\<lambda>(p, v). [NodeRelease v, PairDelete p]) c)) = st"
  by (induction c arbitrary: st) (auto simp: split_beta)

lemma eliminate_apply_table:
  assumes keeps: "keeps_substitutions X" and e: "eliminate_apply X app t = Inr t'"
  shows "\<exists>r. substitutions (btor t') = substitutions (btor t) @ [(app, r)] \<and>
             (\<exists>ci co. trace t' = trace t @
                [BetaReduceFull app ci r co, InsertSubstitution app r, NodeRelease r]) \<and>
             num_applies t' = num_applies t + 1 \<and> round_no t' = round_no t"
proof -
  obtain r c' b1 where beta: "beta_reduce_full X (btor t) app (cache t) = (r, c', b1)"
    by (cases "beta_reduce_full X (btor t) app (cache t)")
  from keeps have "substitutions (snd (snd (beta_reduce_full X (btor t) app (cache t)))) =
      substitutions (btor t)"
    unfolding keeps_substitutions_def by blast
  with beta have b1: "substitutions b1 = substitutions (btor t)" by simp
  from keeps have copy: "\<And>b n. substitutions (node_copy X b n) = substitutions b"
    and release: "\<And>b n. substitutions (node_release X b n) = substitutions b"
    unfolding keeps_substitutions_def by blast+
  from e beta have t': "t' = t\<lparr>btor := node_release X (btor_insert_substitution X b1 app r) r,
        cache := c', num_applies := num_applies t + 1,
        trace := trace t @ [BetaReduceFull app (cache t) r c', InsertSubstitution app r,
          NodeRelease r]\<rparr>"
    by (auto simp: eliminate_apply_def split: if_splits)
  have "substitutions (btor t') = substitutions (btor t) @ [(app, r)]"
    by (simp add: t' release copy b1 btor_insert_substitution_def Let_def)
  with t' show ?thesis by auto
qed

lemma one_round_logs:
  assumes round: "one_round X s = Inr s'"
    and keeps: "keeps_substitutions X"
    and ok: "rebuilds_accumulated (trace s)"
  shows "round_log (trace s') = round_log (trace s) @ [(num_applies s', round_no s)] \<and>
         (\<exists>m. rebuild_log (trace s') = rebuild_log (trace s) @ [m] \<and>
              int (length m) = num_applies s') \<and>
         round_no s' = round_no s + 1 \<and> rebuilds_accumulated (trace s')"
proof -
  let ?K = "\<lambda>t :: ('a, 'b) pass_state.
      foldl scan_event ([], True) (trace t) = (substitutions (btor t), True) \<and>
      num_applies t = int (length (substitutions (btor t))) \<and>
      round_log (trace t) = round_log (trace s) \<and>
      rebuild_log (trace t) = rebuild_log (trace s) \<and>
      round_no t = round_no s"
  let ?Q = "\<lambda>t :: ('a, 'b) pass_state.
      round_log (trace t) = round_log (trace s) @ [(num_applies t, round_no s)] \<and>
      (\<exists>m. rebuild_log (trace t) = rebuild_log (trace s) @ [m] \<and>
           int (length m) = num_applies t) \<and>
      round_no t = round_no s + 1 \<and> rebuilds_accumulated (trace t)"
  show ?thesis
    using round
  proof (rule one_round_hoare [where J = "\<lambda>t. t = s" and K = ?K and Q = ?Q])
    show "s = s" ..
  next
    fix t assume "t = s"
    with ok show "?K (round_begin t)"
      by (cases "foldl scan_event ([], True) (trace s)")
         (simp add: round_begin_def btor_init_substitutions_def rebuilds_accumulated_def)
  next
    fix app t t'
    assume K: "?K t" and e: "eliminate_apply X app t = Inr t'"
    from eliminate_apply_table [OF keeps e] K show "?K t'" by auto
  next
    fix t assume "?K t"
    then show "?Q (round_end X t)"
      by (simp add: round_end_def rebuilds_accumulated_def)
  qed
qed


lemma upt_one_Suc: "map int [1..<Suc (Suc n)] = map int [1..<Suc n] @ [int n + 1]"
  by simp

lemma round_summary_step:
  assumes round: "one_round X s = Inr s'"
    and keeps: "keeps_substitutions X"
    and sum: "round_summary s"
  shows "round_summary s' \<and>
         round_log (trace s') = round_log (trace s) @ [(num_applies s', round_no s)] \<and>
         (\<exists>m. rebuild_log (trace s') = rebuild_log (trace s) @ [m] \<and>
              int (length m) = num_applies s')"
proof -
  from sum have ok: "rebuilds_accumulated (trace s)" by (simp add: round_summary_def)
  from one_round_logs [OF round keeps ok] sum show ?thesis
    by (auto simp: round_summary_def)
qed

lemma table_step_silent [simp]:
  "table_step st TimeStamp = st"
  "table_step st CacheNew = st"
  "table_step st (BetaReduceFull a ci r co) = st"
  "table_step st (NodeRelease v) = st"
  "table_step st (PairDelete p) = st"
  "table_step st CacheDelete = st"
  "table_step st (Msg_total n d) = st"
  by (cases st; simp)+

lemma table_lifecycle_append [simp]:
  "table_lifecycle (t @ u) = foldl table_step (table_lifecycle t) u"
  by (simp add: table_lifecycle_def)

lemma teardown_table_silent:
  "foldl table_step st (concat (map (\<lambda>(p, v). [NodeRelease v, PairDelete p]) c)) = st"
  by (induction c arbitrary: st) (auto simp: split_beta)

lemma one_round_table:
  assumes round: "one_round X s = Inr s'"
    and keeps: "keeps_substitutions X"
    and life: "table_lifecycle (trace s) = (NoTable, True)"
  shows "table_lifecycle (trace s') = (NoTable, True) \<and> substitutions (btor s') = []"
proof -
  let ?K = "\<lambda>t :: ('a, 'b) pass_state.
      table_lifecycle (trace t) = (Filling (substitutions (btor t)), True) \<and>
      num_applies t = int (length (substitutions (btor t)))"
  let ?Q = "\<lambda>t :: ('a, 'b) pass_state.
      table_lifecycle (trace t) = (NoTable, True) \<and> substitutions (btor t) = []"
  show ?thesis
    using round
  proof (rule one_round_hoare [where J = "\<lambda>t. t = s" and K = ?K and Q = ?Q])
    show "s = s" ..
  next
    fix t assume "t = s"
    with life show "?K (round_begin t)"
      by (simp add: round_begin_def btor_init_substitutions_def)
  next
    fix app t t'
    assume K: "?K t" and e: "eliminate_apply X app t = Inr t'"
    from eliminate_apply_table [OF keeps e] K show "?K t'" by auto
  next
    fix t assume "?K t"
    then show "?Q (round_end X t)"
      by (simp add: round_end_def btor_delete_substitutions_def)
  qed
qed

lemma replay_append [simp]:
  "replay X b (t @ u) = foldl (replay_event X) (replay X b t) u"
  by (simp add: replay_def)

lemma replay_teardown:
  "foldl (replay_event X) (b, ok) (concat (map (\<lambda>(p, v). [NodeRelease v, PairDelete p]) c)) =
     (foldl (node_release X) b (map snd c), ok)"
  by (induction c arbitrary: b) (auto simp: split_beta)

lemma eliminate_apply_replay:
  assumes "replay X b (trace t) = (btor t, True)" and "eliminate_apply X app t = Inr t'"
  shows "replay X b (trace t') = (btor t', True)"
  using assms by (auto simp: eliminate_apply_def split: prod.splits if_splits)

lemma one_round_replay:
  assumes round: "one_round X s = Inr s'"
    and before: "replay X b (trace s) = (btor s, True)"
  shows "replay X b (trace s') = (btor s', True)"
proof -
  let ?R = "\<lambda>t :: ('a, 'b) pass_state. replay X b (trace t) = (btor t, True)"
  show ?thesis
    using round before
  proof (rule one_round_hoare [where J = ?R and K = ?R and Q = ?R])
    fix t assume "?R t"
    then show "?R (round_begin t)" by (simp add: round_begin_def)
  next
    fix app t t'
    assume "?R t" "eliminate_apply X app t = Inr t'"
    then show "?R t'" by (rule eliminate_apply_replay)
  next
    fix t assume "?R t"
    then show "?R (round_end X t)" by (simp add: round_end_def)
  qed
qed

text \<open>
  The solver state a run returns is the one that the recorded calls produce, made one
  after the other on the solver state the pass was entered with, up to the statistic that
  the pass itself updates at line 106.
\<close>

lemma run_replay:
  assumes run: "btor_eliminate_applies X b = Some (Inr s)"
    and nonempty: "lambdas b \<noteq> []"
  shows "\<exists>b1. replay X b (trace s) = (b1, True) \<and>
           btor s = b1\<lparr>time_elimapplies :=
                       time_elimapplies b1 + (time_stamp X 1 - time_stamp X 0)\<rparr>"
proof -
  let ?I = "\<lambda>t :: ('a, 'b) pass_state. replay X b (trace t) = (btor t, True)"
  have "\<exists>s0 s1. ?I s0 \<and> one_round X s0 = Inr s1 \<and> \<not> 0 < num_applies s1 \<and>
          after_rounds X (time_stamp X 0) s1 = Inr s"
    using run nonempty
  proof (rule pass_until_empty)
    show "?I (started b)" by (simp add: started_def replay_def)
  next
    fix t t' assume "?I t" and "one_round X t = Inr t'"
    then show "?I t'" by (rule one_round_replay [rotated])
  qed
  then obtain s0 s1 where I0: "?I s0" and r: "one_round X s0 = Inr s1"
    and after: "after_rounds X (time_stamp X 0) s1 = Inr s"
    by blast
  from r I0 have I1: "?I s1" by (rule one_round_replay)
  from after have tr: "trace s = trace s1 @
      concat (map (\<lambda>(p, v). [NodeRelease v, PairDelete p]) (cache s1)) @
      [CacheDelete, TimeStamp, Msg_total (num_applies_total s1) (time_stamp X 1 - time_stamp X 0)]"
    and bs: "btor s = (foldl (node_release X) (btor s1) (map snd (cache s1)))
       \<lparr>time_elimapplies :=
          time_elimapplies (foldl (node_release X) (btor s1) (map snd (cache s1))) +
          (time_stamp X 1 - time_stamp X 0)\<rparr>"
    by (auto simp: after_rounds_def finish_def cache_teardown_def Let_def split: if_splits)
  have "replay X b (trace s) = (foldl (node_release X) (btor s1) (map snd (cache s1)), True)"
    by (simp add: tr I1 replay_teardown)
  with bs show ?thesis by simp
qed

lemma run_table_lifecycle:
  assumes run: "btor_eliminate_applies X b = Some (Inr s)"
    and nonempty: "lambdas b \<noteq> []"
    and keeps: "keeps_substitutions X"
  shows "table_lifecycle (trace s) = (NoTable, True) \<and> substitutions (btor s) = []"
proof -
  let ?I = "\<lambda>t :: ('a, 'b) pass_state. table_lifecycle (trace t) = (NoTable, True)"
  have "\<exists>s0 s1. ?I s0 \<and> one_round X s0 = Inr s1 \<and> \<not> 0 < num_applies s1 \<and>
          after_rounds X (time_stamp X 0) s1 = Inr s"
    using run nonempty
  proof (rule pass_until_empty)
    show "?I (started b)" by (simp add: started_def table_lifecycle_def)
  next
    fix t t' assume "?I t" and "one_round X t = Inr t'"
    with one_round_table [OF _ keeps] show "?I t'" by blast
  qed
  then obtain s0 s1 where I0: "?I s0" and r: "one_round X s0 = Inr s1"
    and after: "after_rounds X (time_stamp X 0) s1 = Inr s"
    by blast
  from one_round_table [OF r keeps I0]
  have life: "table_lifecycle (trace s1) = (NoTable, True)"
    and empty: "substitutions (btor s1) = []"
    by simp_all
  from after have tr: "trace s = trace s1 @
      concat (map (\<lambda>(p, v). [NodeRelease v, PairDelete p]) (cache s1)) @
      [CacheDelete, TimeStamp, Msg_total (num_applies_total s1) (time_stamp X 1 - time_stamp X 0)]"
    and bs: "substitutions (btor s) =
      substitutions (foldl (node_release X) (btor s1) (map snd (cache s1)))"
    by (auto simp: after_rounds_def finish_def cache_teardown_def Let_def split: if_splits)
  from keeps have "\<And>b n. substitutions b = [] \<Longrightarrow> substitutions (node_release X b n) = []"
    unfolding keeps_substitutions_def by simp
  then have "substitutions (foldl (node_release X) (btor s1) (map snd (cache s1))) = []"
    using empty by (rule foldl_preserves)
  with bs have "substitutions (btor s) = []" by simp
  moreover have "table_lifecycle (trace s) = (NoTable, True)"
    by (simp add: tr life teardown_table_silent)
  ultimately show ?thesis by simp
qed

lemma run_round_summary:
  assumes run: "btor_eliminate_applies X b = Some (Inr s)"
    and nonempty: "lambdas b \<noteq> []"
    and keeps: "keeps_substitutions X"
  shows "round_log (trace s) \<noteq> [] \<and>
         length (rebuild_log (trace s)) = length (round_log (trace s)) \<and>
         rebuilds_accumulated (trace s) \<and>
         map snd (round_log (trace s)) = map int [1..<Suc (length (round_log (trace s)))] \<and>
         round_no s = int (length (round_log (trace s))) + 1 \<and>
         fst (last (round_log (trace s))) = 0 \<and>
         last (rebuild_log (trace s)) = [] \<and>
         (\<forall>n \<in> set (butlast (map fst (round_log (trace s)))). 0 < n)"
proof -
  let ?I = "\<lambda>t :: ('a, 'b) pass_state.
     round_summary t \<and> (\<forall>n \<in> set (map fst (round_log (trace t))). 0 < n)"
  have "\<exists>s0 s1. ?I s0 \<and> one_round X s0 = Inr s1 \<and> \<not> 0 < num_applies s1 \<and>
          after_rounds X (time_stamp X 0) s1 = Inr s"
    using run nonempty
  proof (rule pass_until_empty)
    show "?I (started b)"
      by (simp add: started_def round_summary_def rebuilds_accumulated_def)
  next
    fix t t' assume "?I t" and r: "one_round X t = Inr t'" and pos: "0 < num_applies t'"
    then have sum: "round_summary t" and old: "\<forall>n \<in> set (map fst (round_log (trace t))). 0 < n"
      by simp_all
    from round_summary_step [OF r keeps sum] old pos show "?I t'" by auto
  qed
  then obtain s0 s1 where I0: "?I s0" and r: "one_round X s0 = Inr s1"
    and stop: "\<not> 0 < num_applies s1" and after: "after_rounds X (time_stamp X 0) s1 = Inr s"
    by blast
  from I0 have sum0: "round_summary s0" by simp
  from round_summary_step [OF r keeps sum0] obtain m
    where sum1: "round_summary s1"
      and rl: "round_log (trace s1) = round_log (trace s0) @ [(num_applies s1, round_no s0)]"
      and bl: "rebuild_log (trace s1) = rebuild_log (trace s0) @ [m]"
      and m: "int (length m) = num_applies s1"
    by blast
  from m stop have "length m = 0" by linarith
  then have empty: "m = []" by simp
  with m have zero: "num_applies s1 = 0" by simp
  from after have tr: "trace s = trace s1 @
      concat (map (\<lambda>(p, v). [NodeRelease v, PairDelete p]) (cache s1)) @
      [CacheDelete, TimeStamp, Msg_total (num_applies_total s1) (time_stamp X 1 - time_stamp X 0)]"
    and rn: "round_no s = round_no s1"
    by (auto simp: after_rounds_def finish_def cache_teardown_def Let_def split: if_splits)
  have logs: "round_log (trace s) = round_log (trace s1)"
    "rebuild_log (trace s) = rebuild_log (trace s1)"
    "rebuilds_accumulated (trace s) = rebuilds_accumulated (trace s1)"
    by (simp_all add: tr teardown_events_silent rebuilds_accumulated_def)
  from sum1 have "round_summary s"
    by (simp add: round_summary_def logs rn)
  moreover from I0 have "\<forall>n \<in> set (butlast (map fst (round_log (trace s)))). 0 < n"
    by (simp add: logs rl)
  ultimately show ?thesis
    by (simp add: round_summary_def logs rl bl zero empty)
qed

text \<open>
  C2, as the code has it.  The specification lets a round which recorded no substitution
  stop the driver without a call of the rebuild pass.  The loop is a \<^verbatim>\<open>do ... while\<close>:
  line 76 calls the rebuild pass in every round, and in the run below the only round
  records no substitution and still calls it, with the empty table, and increments the
  round counter.
\<close>

theorem rebuild_invoked_in_empty_round:
  "btor_eliminate_applies (node_universe True) under_binder = Some (Inr under_binder_final) \<and>
   round_log (trace under_binder_final) = [(0, 1)] \<and>
   rebuild_log (trace under_binder_final) = [[]] \<and>
   round_no under_binder_final = 2"
  using under_binder_run by (simp add: under_binder_final_def)

text \<open>
  C2, amended.  In every round, also one that recorded no substitution, the rebuild pass
  is called once with the accumulated substitution table, the table is then deleted and
  the round counter incremented; the driver stops after the first round that recorded no
  substitution, whose table is empty.

  The first eight conjuncts read the rounds off the record of calls: there is a round,
  every round has its call of the rebuild pass with the insertions of the round, the
  rounds are counted from one, the last round recorded nothing and every other round
  something.  The ninth says that every table was deleted after the rebuild pass had got
  it and before the next was created, and the tenth that the solver is returned without a
  substitution table.  The last two tie the record to the solver: the recorded calls of
  the rebuild pass and of the deletion were made on the table of the solver, and the
  solver state returned is the one these calls produce, in this order, up to the
  statistic.
\<close>

theorem rebuild_in_every_round:
  assumes run: "btor_eliminate_applies X b = Some (Inr s)"
    and nonempty: "lambdas b \<noteq> []"
    and keeps: "keeps_substitutions X"
  shows "round_log (trace s) \<noteq> [] \<and>
         length (rebuild_log (trace s)) = length (round_log (trace s)) \<and>
         rebuilds_accumulated (trace s) \<and>
         map snd (round_log (trace s)) = map int [1..<Suc (length (round_log (trace s)))] \<and>
         round_no s = int (length (round_log (trace s))) + 1 \<and>
         fst (last (round_log (trace s))) = 0 \<and>
         last (rebuild_log (trace s)) = [] \<and>
         (\<forall>n \<in> set (butlast (map fst (round_log (trace s)))). 0 < n) \<and>
         table_lifecycle (trace s) = (NoTable, True) \<and>
         substitutions (btor s) = [] \<and>
         snd (replay X b (trace s)) \<and>
         btor s = (fst (replay X b (trace s)))
           \<lparr>time_elimapplies := time_elimapplies (fst (replay X b (trace s))) +
                                   (time_stamp X 1 - time_stamp X 0)\<rparr>"
proof -
  from run_replay [OF run nonempty]
  have "snd (replay X b (trace s)) \<and>
        btor s = (fst (replay X b (trace s)))
           \<lparr>time_elimapplies := time_elimapplies (fst (replay X b (trace s))) +
                                   (time_stamp X 1 - time_stamp X 0)\<rparr>"
    by auto
  with run_round_summary [OF run nonempty keeps] run_table_lifecycle [OF run nonempty keeps]
  show ?thesis by blast
qed

theorem rebuild_in_every_round_witness:
  "btor_eliminate_applies (node_universe False) scenario_reuse =
     Some (Inr scenario_reuse_final) \<and>
   round_log (trace scenario_reuse_final) = [(3, 1), (0, 2)] \<and>
   rebuild_log (trace scenario_reuse_final) =
     [[(app_B, Var 0), (app_A, Var 0), (app_A1, Var 1)], []] \<and>
   rebuilds_accumulated (trace scenario_reuse_final) \<and>
   round_no scenario_reuse_final = 3 \<and>
   table_lifecycle (trace scenario_reuse_final) = (NoTable, True) \<and>
   substitutions (btor scenario_reuse_final) = [] \<and>
   replay (node_universe False) scenario_reuse (trace scenario_reuse_final) =
     ((btor scenario_reuse_final)\<lparr>time_elimapplies := 0\<rparr>, True)"
proof -
  have logs: "round_log (trace scenario_reuse_final) = [(3, 1), (0, 2)]"
    "rebuild_log (trace scenario_reuse_final) =
      [[(app_B, Var 0), (app_A, Var 0), (app_A1, Var 1)], []]"
    by (simp_all add: scenario_reuse_final_def)
  have played: "replay (node_universe False) scenario_reuse (trace scenario_reuse_final) =
     ((btor scenario_reuse_final)\<lparr>time_elimapplies := 0\<rparr>, True)"
    by code_simp
  note every = rebuild_in_every_round
    [OF scenario_reuse_run scenario_reuse_registry keeps_substitutions_node_universe]
  from every have "rebuilds_accumulated (trace scenario_reuse_final)"
    and "table_lifecycle (trace scenario_reuse_final) = (NoTable, True)"
    and "substitutions (btor scenario_reuse_final) = []"
    by blast+
  moreover from every
  have "round_no scenario_reuse_final =
      int (length (round_log (trace scenario_reuse_final))) + 1"
    by blast
  then have "round_no scenario_reuse_final = 3" by (simp add: logs)
  ultimately show ?thesis using logs played scenario_reuse_run by blast
qed

subsection \<open>No node is substituted twice in a round\<close>

lemma applies_function_child: "applies fn app \<Longrightarrow> function_child app = fn"
  by (cases app) (simp_all add: function_child_def)

lemma iter_parent_table:
  "apply_parents b = parent_table roots \<Longrightarrow>
   iter_apply_parent b fn =
     (if fn \<in> set (registry roots) then filter (applies fn) (present roots) else [])"
  by (simp add: iter_apply_parent_def parent_table_def map_of_map_restrict restrict_map_def)

lemma well_formed_tables:
  assumes "lambdas b = registry roots" and "apply_parents b = parent_table roots"
  shows "well_formed function_child b"
  using assms(1) iter_parent_table [OF assms(2)]
  by (simp add: well_formed_def registry_def present_def list_all_iff applies_function_child)

lemma well_formed_formula: "well_formed function_child (formula roots)"
  by (rule well_formed_tables [of _ roots]) (simp_all add: formula_def)

lemma well_formed_rebuild:
  "well_formed function_child b \<Longrightarrow> well_formed function_child (rebuild b m)"
  by (auto simp: rebuild_def Let_def intro: well_formed_tables)

lemma well_formed_fields:
  "lambdas b' = lambdas b \<Longrightarrow> apply_parents b' = apply_parents b \<Longrightarrow>
   well_formed fc b' = well_formed fc b"
  by (simp add: well_formed_def iter_apply_parent_def)

lemma well_formed_add_references [simp]:
  "well_formed fc (add_references d b n) = well_formed fc b"
  by (rule well_formed_fields) simp_all

lemma well_formed_beta_reduce_full_node [simp]:
  "well_formed fc (snd (snd (beta_reduce_full_node b app c))) = well_formed fc b"
  by (rule well_formed_fields) simp_all

lemma preserves_well_formed_node_universe:
  "preserves_well_formed function_child (node_universe r)"
  by (simp add: preserves_well_formed_def well_formed_rebuild)
     (simp add: node_universe_def well_formed_rebuild)

lemma eliminate_apply_well_formed:
  assumes pres: "preserves_well_formed fc X"
    and wf: "well_formed fc (btor t)"
    and e: "eliminate_apply X app t = Inr t'"
  shows "well_formed fc (btor t')"
proof -
  obtain r c' b1 where beta: "beta_reduce_full X (btor t) app (cache t) = (r, c', b1)"
    by (cases "beta_reduce_full X (btor t) app (cache t)")
  from pres wf have "well_formed fc (snd (snd (beta_reduce_full X (btor t) app (cache t))))"
    unfolding preserves_well_formed_def by blast
  with beta have "well_formed fc b1" by simp
  with pres have "well_formed fc (node_copy X b1 r)"
    unfolding preserves_well_formed_def by blast
  moreover have "well_formed fc (btor_insert_substitution X b1 app r) =
      well_formed fc (node_copy X b1 r)"
    by (rule well_formed_fields) (simp_all add: btor_insert_substitution_def Let_def)
  ultimately have "well_formed fc (btor_insert_substitution X b1 app r)" by simp
  with pres have "well_formed fc (node_release X (btor_insert_substitution X b1 app r) r)"
    unfolding preserves_well_formed_def by blast
  with e beta show ?thesis
    by (auto simp: eliminate_apply_def split: if_splits)
qed

lemma eliminate_apply_fresh:
  assumes keeps: "keeps_substitutions X"
    and fresh: "app \<notin> set (keys t)"
  shows "eliminate_apply X app t \<noteq> Inl DuplicateSubstitution"
proof -
  obtain r c' b1 where beta: "beta_reduce_full X (btor t) app (cache t) = (r, c', b1)"
    by (cases "beta_reduce_full X (btor t) app (cache t)")
  from keeps have "substitutions (snd (snd (beta_reduce_full X (btor t) app (cache t)))) =
      substitutions (btor t)"
    unfolding keeps_substitutions_def by blast
  with beta have "substitutions b1 = substitutions (btor t)" by simp
  with fresh have "btor_hashptr_table_get (substitutions b1) app = None"
    by (simp add: btor_hashptr_table_get_def keys_def map_of_eq_None_iff)
  with beta show ?thesis by (simp add: eliminate_apply_def)
qed

lemma eliminate_apply_error:
  "eliminate_apply X app t = Inl e \<Longrightarrow> e = DuplicateSubstitution"
  by (auto simp: eliminate_apply_def split: prod.splits if_splits)

lemma collect_parents_fresh:
  assumes keeps: "keeps_substitutions X"
  shows "distinct apps \<Longrightarrow> set apps \<inter> set (keys s) = {} \<Longrightarrow> distinct (keys s) \<Longrightarrow>
         (\<forall>e. collect_parents X apps s \<noteq> Inl e) \<and>
         (\<forall>s'. collect_parents X apps s = Inr s' \<longrightarrow>
            distinct (keys s') \<and> set (keys s') \<subseteq> set (keys s) \<union> set apps)"
proof (induction apps arbitrary: s)
  case Nil
  then show ?case by simp
next
  case (Cons app apps)
  show ?case
  proof (cases "parameterized X app")
    case True
    with Cons.IH [of s] Cons.prems show ?thesis by auto
  next
    case False
    from Cons.prems have fresh: "app \<notin> set (keys s)" by simp
    from eliminate_apply_fresh [OF keeps fresh] eliminate_apply_error [of X app s]
    obtain t where t: "eliminate_apply X app s = Inr t"
      by (cases "eliminate_apply X app s") auto
    from eliminate_apply_table [OF keeps t]
    have k: "keys t = keys s @ [app]" by (auto simp: keys_def)
    from Cons.prems k have "distinct apps" "set apps \<inter> set (keys t) = {}" "distinct (keys t)"
      by auto
    from Cons.IH [OF this] False t k show ?thesis by auto
  qed
qed


lemma collect_parents_well_formed:
  assumes pres: "preserves_well_formed fc X"
    and c: "collect_parents X apps s = Inr s'"
    and wf: "well_formed fc (btor s)"
  shows "well_formed fc (btor s')"
  using c wf
proof (rule collect_parents_invariant [where I = "\<lambda>t. well_formed fc (btor t)"])
  fix app t t'
  assume "well_formed fc (btor t)" "eliminate_apply X app t = Inr t'"
  with pres show "well_formed fc (btor t')" by (rule eliminate_apply_well_formed)
qed

lemma collect_lambdas_fresh:
  assumes keeps: "keeps_substitutions X" and pres: "preserves_well_formed fc X"
  shows "distinct fns \<Longrightarrow> well_formed fc (btor s) \<Longrightarrow> distinct (keys s) \<Longrightarrow>
         fc ` set (keys s) \<inter> set fns = {} \<Longrightarrow>
         (\<forall>e. collect_lambdas X fns s \<noteq> Inl e) \<and>
         (\<forall>s'. collect_lambdas X fns s = Inr s' \<longrightarrow>
            distinct (keys s') \<and> well_formed fc (btor s'))"
proof (induction fns arbitrary: s)
  case Nil
  then show ?case by simp
next
  case (Cons fn fns)
  let ?ps = "iter_apply_parent (btor s) fn"
  from Cons.prems(2) have d: "distinct ?ps" and f: "\<forall>app \<in> set ?ps. fc app = fn"
    by (simp_all add: well_formed_def list_all_iff)
  from f Cons.prems(4) have disj: "set ?ps \<inter> set (keys s) = {}" by auto
  from collect_parents_fresh [OF keeps d disj Cons.prems(3)]
  obtain t where t: "collect_parents X ?ps s = Inr t"
    and dt: "distinct (keys t)" and sub: "set (keys t) \<subseteq> set (keys s) \<union> set ?ps"
    by (cases "collect_parents X ?ps s") auto
  from pres t Cons.prems(2) have wt: "well_formed fc (btor t)"
    by (rule collect_parents_well_formed)
  from Cons.prems(1) have dfns: "distinct fns" and fn: "fn \<notin> set fns" by simp_all
  have "fc ` set (keys t) \<inter> set fns = {}"
  proof -
    have "fc a \<notin> set fns" if "a \<in> set (keys t)" for a
    proof (cases "a \<in> set (keys s)")
      case True
      with Cons.prems(4) show ?thesis by auto
    next
      case False
      with that sub have "a \<in> set ?ps" by auto
      with f fn show ?thesis by auto
    qed
    then show ?thesis by auto
  qed
  from Cons.IH [OF dfns wt dt this] t show ?case by simp
qed

lemma delete_substitutions_well_formed:
  assumes pres: "preserves_well_formed fc X" and wf: "well_formed fc b"
  shows "well_formed fc (btor_delete_substitutions X b)"
proof -
  from pres have "\<And>b n. well_formed fc b \<Longrightarrow> well_formed fc (node_release X b n)"
    unfolding preserves_well_formed_def by blast
  then have "well_formed fc (foldl (node_release X) b (map snd (substitutions b)))"
    using wf by (rule foldl_preserves)
  moreover have "well_formed fc (btor_delete_substitutions X b) =
      well_formed fc (foldl (node_release X) b (map snd (substitutions b)))"
    by (rule well_formed_fields) (simp_all add: btor_delete_substitutions_def)
  ultimately show ?thesis by simp
qed

lemma one_round_fresh:
  assumes keeps: "keeps_substitutions X" and pres: "preserves_well_formed fc X"
    and wf: "well_formed fc (btor s)"
  shows "(\<forall>e. one_round X s \<noteq> Inl e) \<and>
         (\<forall>s'. one_round X s = Inr s' \<longrightarrow>
            well_formed fc (btor s') \<and>
            (\<exists>m. rebuild_log (trace s') = rebuild_log (trace s) @ [m] \<and> distinct (map fst m)))"
proof -
  let ?s0 = "round_begin s"
  have "well_formed fc (btor ?s0) = well_formed fc (btor s)"
    by (rule well_formed_fields) (simp_all add: round_begin_def btor_init_substitutions_def)
  with wf have wf0: "well_formed fc (btor ?s0)" by simp
  then have d: "distinct (lambdas (btor ?s0))" by (simp add: well_formed_def)
  have k0: "keys ?s0 = []" by (simp add: keys_def round_begin_def btor_init_substitutions_def)
  from collect_lambdas_fresh [OF keeps pres d wf0, unfolded k0]
  have noerr: "\<forall>e. collect_lambdas X (lambdas (btor ?s0)) ?s0 \<noteq> Inl e"
    and ok: "\<forall>t. collect_lambdas X (lambdas (btor ?s0)) ?s0 = Inr t \<longrightarrow>
               distinct (keys t) \<and> well_formed fc (btor t)"
    by simp_all
  have "one_round X s \<noteq> Inl e" for e
    using noerr by (auto simp: one_round_def Let_def split: sum.splits)
  moreover have "well_formed fc (btor s') \<and>
      (\<exists>m. rebuild_log (trace s') = rebuild_log (trace s) @ [m] \<and> distinct (map fst m))"
    if r: "one_round X s = Inr s'" for s'
  proof -
    from r obtain t where t: "collect_lambdas X (lambdas (btor ?s0)) ?s0 = Inr t"
      and s': "s' = round_end X t"
      by (auto simp: one_round_def Let_def split: sum.splits)
    from ok t have dt: "distinct (keys t)" and wt: "well_formed fc (btor t)" by simp_all
    from pres wt have "well_formed fc (substitute_and_rebuild X (btor t) (substitutions (btor t)))"
      unfolding preserves_well_formed_def by blast
    with pres have "well_formed fc (btor s')"
      unfolding s' round_end_def by (simp add: delete_substitutions_well_formed)
    moreover have "rebuild_log (trace t) = rebuild_log (trace s)"
      using t
    proof (rule collect_lambdas_invariant
        [where I = "\<lambda>u. rebuild_log (trace u) = rebuild_log (trace s)"])
      show "rebuild_log (trace ?s0) = rebuild_log (trace s)" by (simp add: round_begin_def)
    next
      fix app u u'
      assume "rebuild_log (trace u) = rebuild_log (trace s)" "eliminate_apply X app u = Inr u'"
      then show "rebuild_log (trace u') = rebuild_log (trace s)"
        by (auto simp: eliminate_apply_def split: prod.splits if_splits)
    qed
    then have "rebuild_log (trace s') = rebuild_log (trace s) @ [substitutions (btor t)]"
      by (simp add: s' round_end_def)
    ultimately show ?thesis
      using dt by (auto simp: keys_def)
  qed
  ultimately show ?thesis by blast
qed


lemma rounds_no_error:
  assumes run: "rounds X s = Some r"
    and init: "I s"
    and step: "\<And>t. I t \<Longrightarrow>
      (\<forall>e. one_round X t \<noteq> Inl e) \<and> (\<forall>t'. one_round X t = Inr t' \<longrightarrow> I t')"
  shows "\<forall>e. r \<noteq> Inl e"
proof -
  from step have step': "\<forall>t. I t \<longrightarrow>
      (\<forall>e. one_round X t \<noteq> Inl e) \<and> (\<forall>t'. one_round X t = Inr t' \<longrightarrow> I t')"
    by blast
  from run init step' show ?thesis
  proof (induction X s r rule: rounds.raw_induct [rotated -1, consumes 1, case_names 1])
    case (1 rounds X s r)
    from "1.prems" obtain t where t: "one_round X s = Inr t" and It: "I t"
      by (cases "one_round X s") auto
    show ?case
    proof (cases "0 < num_applies t")
      case True
      with "1.hyps" t have "rounds X t = Some r" by simp
      then show ?thesis using It "1.prems"(2) by (rule "1.IH")
    next
      case False
      with "1.hyps" t show ?thesis by auto
    qed
  qed
qed

lemma after_rounds_error:
  "after_rounds X start s \<noteq> Inl DuplicateSubstitution"
  by (simp add: after_rounds_def finish_def Let_def)

text \<open>
  The invariants are needed.  When the registry lists a lambda twice, its application is
  reached twice in the round and the assertion of line 63 fails.
\<close>

lemma twice_registered_fails:
  "btor_eliminate_applies (node_universe False) twice_registered =
     Some (Inl DuplicateSubstitution) \<and>
   \<not> well_formed function_child twice_registered"
proof -
  have "btor_eliminate_applies (node_universe False) twice_registered =
      Some (Inl DuplicateSubstitution)"
    by code_simp
  moreover have "\<not> well_formed function_child twice_registered"
    by (simp add: well_formed_def twice_registered_def)
  ultimately show ?thesis by simp
qed

text \<open>
  C8.  In a node universe that keeps its invariants, no node is inserted twice into the
  substitution table of a round: the assertion of line 63 never fails, and in a run that
  returns every table handed to the rebuild pass is the sequence of the insertions of its
  round and has pairwise distinct keys.
\<close>

theorem no_duplicate_substitution:
  assumes wf: "well_formed fc b"
    and keeps: "keeps_substitutions X"
    and pres: "preserves_well_formed fc X"
  shows "btor_eliminate_applies X b \<noteq> Some (Inl DuplicateSubstitution) \<and>
         (\<forall>s. btor_eliminate_applies X b = Some (Inr s) \<longrightarrow>
            rebuilds_accumulated (trace s) \<and>
            (\<forall>m \<in> set (rebuild_log (trace s)). distinct (map fst m)))"
proof (cases "lambdas b = []")
  case True
  then show ?thesis
    by (simp add: btor_eliminate_applies_def untouched_def rebuilds_accumulated_def)
next
  case False
  let ?I = "\<lambda>t :: ('a, 'b) pass_state.
     well_formed fc (btor t) \<and> round_summary t \<and>
     (\<forall>m \<in> set (rebuild_log (trace t)). distinct (map fst m))"
  have init: "?I (started b)"
    using wf by (simp add: started_def round_summary_def rebuilds_accumulated_def)
  have noerr: "one_round X t \<noteq> Inl e" if "?I t" for t e
    using one_round_fresh [OF keeps pres, of t] that by blast
  have round: "?I t'" if "?I t" and r: "one_round X t = Inr t'" for t t'
  proof -
    from that have w: "well_formed fc (btor t)" and sum: "round_summary t" by simp_all
    from one_round_fresh [OF keeps pres w] r round_summary_step [OF r keeps sum] that(1)
    show ?thesis by auto
  qed
  have no_dup: "btor_eliminate_applies X b \<noteq> Some (Inl DuplicateSubstitution)"
  proof
    assume dup: "btor_eliminate_applies X b = Some (Inl DuplicateSubstitution)"
    with False obtain r where r: "rounds X (started b) = Some r"
      by (auto simp: btor_eliminate_applies_def Let_def split: option.splits)
    have "\<forall>e. r \<noteq> Inl e"
      using r init
    proof (rule rounds_no_error [where I = ?I])
      fix t assume "?I t"
      with noerr [of t] round [of t] show
        "(\<forall>e. one_round X t \<noteq> Inl e) \<and> (\<forall>t'. one_round X t = Inr t' \<longrightarrow> ?I t')"
        by blast
    qed
    then obtain s1 where "r = Inr s1" by (cases r) auto
    with dup False r after_rounds_error [of X "time_stamp X 0" s1] show False
      by (simp add: btor_eliminate_applies_def Let_def)
  qed
  have "rebuilds_accumulated (trace s) \<and>
        (\<forall>m \<in> set (rebuild_log (trace s)). distinct (map fst m))"
    if run: "btor_eliminate_applies X b = Some (Inr s)" for s
  proof -
    have "\<exists>s0 s1. ?I s0 \<and> one_round X s0 = Inr s1 \<and> \<not> 0 < num_applies s1 \<and>
            after_rounds X (time_stamp X 0) s1 = Inr s"
      using run False init
    proof (rule pass_until_empty [where I = ?I])
      fix t t' assume "?I t" "one_round X t = Inr t'"
      then show "?I t'" by (rule round)
    qed
    then obtain s0 s1 where I0: "?I s0" and r1: "one_round X s0 = Inr s1"
      and after: "after_rounds X (time_stamp X 0) s1 = Inr s"
      by blast
    from I0 r1 have I1: "?I s1" by (rule round)
    from after have tr: "trace s = trace s1 @
        concat (map (\<lambda>(p, v). [NodeRelease v, PairDelete p]) (cache s1)) @
        [CacheDelete, TimeStamp,
         Msg_total (num_applies_total s1) (time_stamp X 1 - time_stamp X 0)]"
      by (auto simp: after_rounds_def finish_def cache_teardown_def Let_def split: if_splits)
    have "rebuild_log (trace s) = rebuild_log (trace s1)"
      "rebuilds_accumulated (trace s) = rebuilds_accumulated (trace s1)"
      by (simp_all add: tr teardown_events_silent rebuilds_accumulated_def)
    with I1 show ?thesis by (simp add: round_summary_def)
  qed
  with no_dup show ?thesis by blast
qed



theorem no_duplicate_substitution_witness:
  "btor_eliminate_applies (node_universe False) scenario_reuse \<noteq>
     Some (Inl DuplicateSubstitution) \<and>
   btor_eliminate_applies (node_universe False) scenario_reuse =
     Some (Inr scenario_reuse_final) \<and>
   rebuild_log (trace scenario_reuse_final) =
     [[(app_B, Var 0), (app_A, Var 0), (app_A1, Var 1)], []] \<and>
   rebuilds_accumulated (trace scenario_reuse_final) \<and>
   list_all (\<lambda>m. distinct (map fst m)) (rebuild_log (trace scenario_reuse_final))"
proof -
  have wf: "well_formed function_child scenario_reuse"
    unfolding scenario_reuse_def by (rule well_formed_formula)
  have "rebuild_log (trace scenario_reuse_final) =
      [[(app_B, Var 0), (app_A, Var 0), (app_A1, Var 1)], []]"
    by (simp add: scenario_reuse_final_def)
  with no_duplicate_substitution
    [OF wf keeps_substitutions_node_universe preserves_well_formed_node_universe, of False]
    scenario_reuse_run
  show ?thesis by (simp add: list_all_iff)
qed

subsection \<open>Running the pass again\<close>

lemma collect_parents_skip:
  "list_all (parameterized X) apps \<Longrightarrow> collect_parents X apps s = Inr s"
  by (induction apps) simp_all

lemma collect_lambdas_skip:
  "list_all (\<lambda>fn. list_all (parameterized X) (iter_apply_parent (btor s) fn)) fns \<Longrightarrow>
   collect_lambdas X fns s = Inr s"
  by (induction fns) (simp_all add: collect_parents_skip)

lemma idle_round:
  assumes "no_ground_apply_parent X (btor s)"
  shows "one_round X s = Inr (round_end X (round_begin s))"
proof -
  have "no_ground_apply_parent X (btor (round_begin s)) = no_ground_apply_parent X (btor s)"
    by (rule no_ground_apply_parent_fields)
       (simp_all add: round_begin_def btor_init_substitutions_def)
  with assms have "collect_lambdas X (lambdas (btor (round_begin s))) (round_begin s) =
      Inr (round_begin s)"
    by (simp add: no_ground_apply_parent_def collect_lambdas_skip)
  then show ?thesis by (simp add: one_round_def Let_def)
qed

lemma idle_rounds:
  assumes conv: "no_ground_apply_parent X b"
    and idle: "\<And>b. substitute_and_rebuild X b [] = b"
  shows "rounds X (started b) = Some (Inr
     ((started b)\<lparr>btor := b\<lparr>substitutions := []\<rparr>, round_no := 2,
        trace := [TimeStamp, CacheNew, InitSubstitutions, Msg_round 0 1,
               SubstituteAndRebuild [], DeleteSubstitutions []]\<rparr>))"
proof -
  from conv have "no_ground_apply_parent X (btor (started b))" by (simp add: started_def)
  then have "one_round X (started b) = Inr (round_end X (round_begin (started b)))"
    by (rule idle_round)
  then show ?thesis
    by (subst rounds.simps)
       (simp add: round_end_def round_begin_def started_def btor_init_substitutions_def
         btor_delete_substitutions_def idle)
qed

text \<open>
  C5, as the code has it.  The specification has a second run record zero substitutions
  in round 1 and converge after that single round.  The run on scenario B leaves a
  formula without lambdas; the second run returns at line 31 and has no round at all.
\<close>

theorem rerun_without_round:
  "btor_eliminate_applies (node_universe False) scenario_B = Some (Inr scenario_B_final) \<and>
   lambdas (btor scenario_B_final) = [] \<and>
   btor_eliminate_applies (node_universe False) (btor scenario_B_final) =
     Some (Inr (untouched (btor scenario_B_final))) \<and>
   round_log (trace (untouched (btor scenario_B_final))) = [] \<and>
   round_log (trace (untouched (btor scenario_B_final))) \<noteq> [(0, 1)]"
proof -
  have "lambdas (btor scenario_B_final) = []" by (simp add: scenario_B_final_def)
  with scenario_B_run early_return [of "btor scenario_B_final" "node_universe False"]
  show ?thesis by (simp add: untouched_def)
qed

text \<open>
  C5, amended.  On a graph the pass has converged on, that is, one without a ground
  application parent, a second run terminates, calls the reducer never and records no
  substitution: it has no round when the registry is empty and otherwise exactly one
  round, round 1, with zero substitutions.  When it returns, the registry, the parent
  lists and the rest of the universe are as before.  This rests on the rebuild pass doing
  nothing on an empty table; the only assertion that can fail is a closing debug check.
\<close>

theorem rerun_is_idle:
  assumes conv: "no_ground_apply_parent X b"
    and idle: "\<And>b. substitute_and_rebuild X b [] = b"
  shows "\<exists>r. btor_eliminate_applies X b = Some r \<and>
           (\<forall>e. r = Inl e \<longrightarrow> e = DbgCheckFailed) \<and>
           (\<forall>s. r = Inr s \<longrightarrow>
              round_log (trace s) = (if lambdas b = [] then [] else [(0, 1)]) \<and>
              num_applies_total s = 0 \<and>
              (\<forall>app ci r co. BetaReduceFull app ci r co \<notin> set (trace s)) \<and>
              lambdas (btor s) = lambdas b \<and>
              apply_parents (btor s) = apply_parents b \<and>
              universe (btor s) = universe b)"
proof (cases "lambdas b = []")
  case True
  then show ?thesis by (simp add: early_return untouched_def)
next
  case False
  define s1 where "s1 = (started b)\<lparr>btor := b\<lparr>substitutions := []\<rparr>, round_no := 2,
        trace := [TimeStamp, CacheNew, InitSubstitutions, Msg_round 0 1,
               SubstituteAndRebuild [], DeleteSubstitutions []]\<rparr>"
  have r: "rounds X (started b) = Some (Inr s1)"
    unfolding s1_def using conv idle by (rule idle_rounds)
  have g: "no_ground_apply_parent X (btor s1)"
    using conv by (simp add: s1_def no_ground_apply_parent_def iter_apply_parent_def)
  from False r have run: "btor_eliminate_applies X b = Some (after_rounds X (time_stamp X 0) s1)"
    by (simp add: btor_eliminate_applies_def Let_def)
  have "(\<forall>e. after_rounds X (time_stamp X 0) s1 = Inl e \<longrightarrow> e = DbgCheckFailed) \<and>
        (\<forall>s. after_rounds X (time_stamp X 0) s1 = Inr s \<longrightarrow>
              round_log (trace s) = [(0, 1)] \<and>
              num_applies_total s = 0 \<and>
              (\<forall>app ci r co. BetaReduceFull app ci r co \<notin> set (trace s)) \<and>
              lambdas (btor s) = lambdas b \<and>
              apply_parents (btor s) = apply_parents b \<and>
              universe (btor s) = universe b)"
    using g
    by (auto simp: after_rounds_def finish_def cache_teardown_def Let_def s1_def started_def
        split: if_splits)
  with run False show ?thesis by simp
qed


lemma under_binder_rerun_run:
  "btor_eliminate_applies (node_universe True) (btor under_binder_final) =
     Some (Inr under_binder_rerun)"
  by code_simp

theorem rerun_is_idle_witness:
  "no_ground_apply_parent (node_universe True) (btor under_binder_final) \<and>
   lambdas (btor under_binder_final) = [outer_lambda, identity_lambda] \<and>
   btor_eliminate_applies (node_universe True) (btor under_binder_final) =
     Some (Inr under_binder_rerun) \<and>
   round_log (trace under_binder_rerun) = [(0, 1)] \<and>
   num_applies_total under_binder_rerun = 0 \<and>
   lambdas (btor under_binder_rerun) = lambdas (btor under_binder_final) \<and>
   apply_parents (btor under_binder_rerun) = apply_parents (btor under_binder_final) \<and>
   universe (btor under_binder_rerun) = universe (btor under_binder_final)"
proof -
  have conv: "no_ground_apply_parent (node_universe True) (btor under_binder_final)"
    by (simp add: no_ground_apply_parent_def under_binder_final_def iter_apply_parent_def
        outer_lambda_def identity_lambda_def app_under_binder_def node_parameterized_def)
  have l: "lambdas (btor under_binder_final) = [outer_lambda, identity_lambda]"
    by (simp add: under_binder_final_def)
  from rerun_is_idle [OF conv node_universe_rebuild_empty] under_binder_rerun_run conv l
  show ?thesis by simp
qed

subsection \<open>Scenario B\<close>

text \<open>
  C7, as the reducer of the specification has it.  The specification lets the pass take
  three rounds on the formula that applies \<open>\<lambda>x. (\<lambda>y. y)(x)\<close> to a variable: the first
  round is to leave the application of the identity to the variable in the formula, the
  second is to eliminate it.  The call of line 62 is a full reduction (sections 2 and
  4.3): it returns the variable itself.  The run below has two rounds, the second one
  empty, and the application of the identity to the variable is never a key of the
  substitution table.
\<close>

theorem scenario_B_not_three_rounds:
  "btor_eliminate_applies (node_universe False) scenario_B = Some (Inr scenario_B_final) \<and>
   round_log (trace scenario_B_final) = [(1, 1), (0, 2)] \<and>
   round_log (trace scenario_B_final) \<noteq> [(1, 1), (1, 2), (0, 3)] \<and>
   InsertSubstitution app_A (Var 0) \<notin> set (trace scenario_B_final) \<and>
   round_no scenario_B_final \<noteq> 4"
proof -
  have "round_log (trace scenario_B_final) = [(1, 1), (0, 2)]"
    and "InsertSubstitution app_A (Var 0) \<notin> set (trace scenario_B_final)"
    and "round_no scenario_B_final \<noteq> 4"
    by (simp_all add: scenario_B_final_def app_A_def app_B_def outer_lambda_def
        identity_lambda_def)
  with scenario_B_run show ?thesis by simp
qed

text \<open>
  C7, amended.  On the formula that applies \<open>\<lambda>x. (\<lambda>y. y)(x)\<close> to a variable, round 1
  records exactly one substitution, of the outer application by the variable: the one
  call of the reducer reduces the application of the identity to the variable on its way,
  as a sub-reduction, and stores both results in the cache.  Round 2 records no
  substitution, and the pass returns after these two rounds with the variable as the
  formula and an empty registry.
\<close>

theorem scenario_B_two_rounds:
  "scenario_B = formula [Apply (Lambda 1 (Apply (Lambda 2 (Param 2)) (Param 1))) (Var 0)] \<and>
   btor_eliminate_applies (node_universe False) scenario_B = Some (Inr scenario_B_final) \<and>
   round_log (trace scenario_B_final) = [(1, 1), (0, 2)] \<and>
   rebuild_log (trace scenario_B_final) = [[(app_B, Var 0)], []] \<and>
   calls (trace scenario_B_final) =
     [(app_B, [], Var 0, [((identity_lambda, Var 0), Var 0), ((outer_lambda, Var 0), Var 0)])] \<and>
   reductions (trace scenario_B_final) = [(identity_lambda, Var 0), (outer_lambda, Var 0)] \<and>
   reduce_full [] app_B [] =
     (Var 0, [((identity_lambda, Var 0), Var 0), ((outer_lambda, Var 0), Var 0)]) \<and>
   app_B = Apply (Lambda 1 (Apply (Lambda 2 (Param 2)) (Param 1))) (Var 0) \<and>
   outer_lambda = Lambda 1 (Apply (Lambda 2 (Param 2)) (Param 1)) \<and>
   identity_lambda = Lambda 2 (Param 2) \<and>
   graph_roots (universe (btor scenario_B_final)) = [Var 0] \<and>
   lambdas (btor scenario_B_final) = [] \<and>
   round_no scenario_B_final = 3"
proof -
  have "round_log (trace scenario_B_final) = [(1, 1), (0, 2)]"
    and "rebuild_log (trace scenario_B_final) = [[(app_B, Var 0)], []]"
    and "calls (trace scenario_B_final) =
     [(app_B, [], Var 0, [((identity_lambda, Var 0), Var 0), ((outer_lambda, Var 0), Var 0)])]"
    and "reductions (trace scenario_B_final) = [(identity_lambda, Var 0), (outer_lambda, Var 0)]"
    and "graph_roots (universe (btor scenario_B_final)) = [Var 0]"
    and "lambdas (btor scenario_B_final) = []"
    and "round_no scenario_B_final = 3"
    by (simp_all add: scenario_B_final_def cache_1_def cache_2_def)
  moreover have "reduce_full [] app_B [] =
     (Var 0, [((identity_lambda, Var 0), Var 0), ((outer_lambda, Var 0), Var 0)])"
    by (simp add: app_B_def outer_lambda_def identity_lambda_def)
  ultimately show ?thesis
    using scenario_B_run
    by (simp add: scenario_B_def app_B_def outer_lambda_def identity_lambda_def)
qed

subsection \<open>The reducer and the reference counts of the node universe\<close>

lemma reduce_full_cache:
  "reduce_full env n c = (r, c') \<Longrightarrow>
     \<exists>new. c' = c @ new \<and> (\<forall>k \<in> set new. size (fst (fst k)) \<le> size n) \<and>
           (distinct (map fst c) \<longrightarrow> distinct (map fst c'))"
proof (induction env n c arbitrary: r c' rule: reduce_full.induct
    [case_names Variable Parameter Binder Redex ApplyVar ApplyParam ApplyApply])
  case (Variable env v c)
  then show ?case by simp
next
  case (Parameter env p c)
  then show ?case by simp
next
  case (Binder env p body c)
  obtain r1 c1 where b: "reduce_full (filter (\<lambda>(q, v). q \<noteq> p) env) body c = (r1, c1)"
    by (cases "reduce_full (filter (\<lambda>(q, v). q \<noteq> p) env) body c")
  from "Binder.IH" [OF b] "Binder.prems" b show ?case by fastforce
next
  case (Redex env p body a c)
  obtain a' c1 where a: "reduce_full env a c = (a', c1)" by (cases "reduce_full env a c")
  from "Redex.IH"(1) [OF a] obtain n1 where c1: "c1 = c @ n1"
    and s1: "\<forall>k \<in> set n1. size (fst (fst k)) \<le> size a"
    and d1: "distinct (map fst c) \<longrightarrow> distinct (map fst c1)"
    by blast
  show ?case
  proof (cases "free_params (Lambda p body) = []")
    case True
    show ?thesis
    proof (cases "map_of c1 (Lambda p body, a')")
      case None
      obtain r2 c2 where b: "reduce_full ((p, a') # env) body c1 = (r2, c2)"
        by (cases "reduce_full ((p, a') # env) body c1")
      from "Redex.IH"(2) [OF a [symmetric] True None b] obtain n2 where c2: "c2 = c1 @ n2"
        and s2: "\<forall>k \<in> set n2. size (fst (fst k)) \<le> size body"
        and d2: "distinct (map fst c1) \<longrightarrow> distinct (map fst c2)"
        by blast
      from "Redex.prems" a True None b
      have c': "c' = c2 @ [((Lambda p body, a'), r2)]" by auto
      from None have fresh1: "(Lambda p body, a') \<notin> fst ` set c1"
        by (simp add: map_of_eq_None_iff)
      have fresh2: "(Lambda p body, a') \<notin> fst ` set n2"
      proof
        assume "(Lambda p body, a') \<in> fst ` set n2"
        then obtain k where "k \<in> set n2" and "fst k = (Lambda p body, a')" by auto
        with s2 have "size (Lambda p body) \<le> size body" by fastforce
        then show False by simp
      qed
      have "c' = c @ (n1 @ n2 @ [((Lambda p body, a'), r2)])"
        by (simp add: c' c2 c1)
      moreover have "\<forall>k \<in> set (n1 @ n2 @ [((Lambda p body, a'), r2)]).
          size (fst (fst k)) \<le> size (Apply (Lambda p body) a)"
        using s1 s2 by fastforce
      moreover have "distinct (map fst c) \<longrightarrow> distinct (map fst c')"
        using d1 d2 fresh1 fresh2 by (auto simp: c' c2)
      ultimately show ?thesis by blast
    next
      case (Some r1)
      with "Redex.prems" a True have "c' = c1" by simp
      with c1 s1 d1 show ?thesis by fastforce
    qed
  next
    case False
    from "Redex.prems" a False have b: "reduce_full ((p, a') # env) body c1 = (r, c')" by simp
    from "Redex.IH"(3) [OF a [symmetric] False b] obtain n2 where c2: "c' = c1 @ n2"
      and s2: "\<forall>k \<in> set n2. size (fst (fst k)) \<le> size body"
      and d2: "distinct (map fst c1) \<longrightarrow> distinct (map fst c')"
      by blast
    have "c' = c @ (n1 @ n2)" by (simp add: c2 c1)
    moreover have "\<forall>k \<in> set (n1 @ n2). size (fst (fst k)) \<le> size (Apply (Lambda p body) a)"
      using s1 s2 by fastforce
    ultimately show ?thesis using d1 d2 by blast
  qed
next
  case (ApplyVar env v a c)
  obtain f' c1 where f: "reduce_full env (Var v) c = (f', c1)"
    by (cases "reduce_full env (Var v) c")
  obtain a' c2 where a: "reduce_full env a c1 = (a', c2)" by (cases "reduce_full env a c1")
  from "ApplyVar.IH"(1) [OF f] obtain n1 where c1: "c1 = c @ n1"
    and s1: "\<forall>k \<in> set n1. size (fst (fst k)) \<le> size (Var v)"
    and d1: "distinct (map fst c) \<longrightarrow> distinct (map fst c1)"
    by blast
  from "ApplyVar.IH"(2) [OF f [symmetric] a] obtain n2 where c2: "c2 = c1 @ n2"
    and s2: "\<forall>k \<in> set n2. size (fst (fst k)) \<le> size a"
    and d2: "distinct (map fst c1) \<longrightarrow> distinct (map fst c2)"
    by blast
  from "ApplyVar.prems" f a have c': "c' = c2" by auto
  have "c' = c @ (n1 @ n2)" by (simp add: c' c2 c1)
  moreover have "\<forall>k \<in> set (n1 @ n2). size (fst (fst k)) \<le> size (Apply (Var v) a)"
    using s1 s2 by fastforce
  ultimately show ?case using d1 d2 c' by blast
next
  case (ApplyParam env v a c)
  obtain f' c1 where f: "reduce_full env (Param v) c = (f', c1)"
    by (cases "reduce_full env (Param v) c")
  obtain a' c2 where a: "reduce_full env a c1 = (a', c2)" by (cases "reduce_full env a c1")
  from "ApplyParam.IH"(1) [OF f] obtain n1 where c1: "c1 = c @ n1"
    and s1: "\<forall>k \<in> set n1. size (fst (fst k)) \<le> size (Param v)"
    and d1: "distinct (map fst c) \<longrightarrow> distinct (map fst c1)"
    by blast
  from "ApplyParam.IH"(2) [OF f [symmetric] a] obtain n2 where c2: "c2 = c1 @ n2"
    and s2: "\<forall>k \<in> set n2. size (fst (fst k)) \<le> size a"
    and d2: "distinct (map fst c1) \<longrightarrow> distinct (map fst c2)"
    by blast
  from "ApplyParam.prems" f a have c': "c' = c2" by auto
  have "c' = c @ (n1 @ n2)" by (simp add: c' c2 c1)
  moreover have "\<forall>k \<in> set (n1 @ n2). size (fst (fst k)) \<le> size (Apply (Param v) a)"
    using s1 s2 by fastforce
  ultimately show ?case using d1 d2 c' by blast
next
  case (ApplyApply env v va a c)
  obtain f' c1 where f: "reduce_full env (Apply v va) c = (f', c1)"
    by (cases "reduce_full env (Apply v va) c")
  obtain a' c2 where a: "reduce_full env a c1 = (a', c2)" by (cases "reduce_full env a c1")
  from "ApplyApply.IH"(1) [OF f] obtain n1 where c1: "c1 = c @ n1"
    and s1: "\<forall>k \<in> set n1. size (fst (fst k)) \<le> size (Apply v va)"
    and d1: "distinct (map fst c) \<longrightarrow> distinct (map fst c1)"
    by blast
  from "ApplyApply.IH"(2) [OF f [symmetric] a] obtain n2 where c2: "c2 = c1 @ n2"
    and s2: "\<forall>k \<in> set n2. size (fst (fst k)) \<le> size a"
    and d2: "distinct (map fst c1) \<longrightarrow> distinct (map fst c2)"
    by blast
  from "ApplyApply.prems" f a have c': "c' = c2" by auto
  have "c' = c @ (n1 @ n2)" by (simp add: c' c2 c1)
  moreover have "\<forall>k \<in> set (n1 @ n2). size (fst (fst k)) \<le> size (Apply (Apply v va) a)"
    using s1 s2 by fastforce
  ultimately show ?case using d1 d2 c' by blast
qed

lemma reduce_full_redex_free:
  "reduce_full env n c = (r, c') \<Longrightarrow> first_order n \<Longrightarrow>
   list_all (\<lambda>(q, v). reduced_value v) env \<Longrightarrow> list_all (\<lambda>(k, v). reduced_value v) c \<Longrightarrow>
     redex_free r \<and> (\<not> is_lambda n \<longrightarrow> \<not> is_lambda r) \<and>
     list_all (\<lambda>(k, v). reduced_value v) c'"
proof (induction env n c arbitrary: r c' rule: reduce_full.induct
    [case_names Variable Parameter Binder Redex ApplyVar ApplyParam ApplyApply])
  case (Variable env v c)
  then show ?case by auto
next
  case (Parameter env p c)
  show ?case
  proof (cases "map_of env p")
    case None
    with "Parameter.prems" show ?thesis by auto
  next
    case (Some v)
    then have "(p, v) \<in> set env" by (rule map_of_SomeD)
    with "Parameter.prems"(3) have "reduced_value v" by (auto simp: list_all_iff)
    with Some "Parameter.prems" show ?thesis by (auto simp: reduced_value_def)
  qed
next
  case (Binder env p body c)
  obtain r1 c1 where b: "reduce_full (filter (\<lambda>(q, v). q \<noteq> p) env) body c = (r1, c1)"
    by (cases "reduce_full (filter (\<lambda>(q, v). q \<noteq> p) env) body c")
  from "Binder.prems" have "first_order body"
    and "list_all (\<lambda>(q, v). reduced_value v) (filter (\<lambda>(q, v). q \<noteq> p) env)"
    by (auto simp: list_all_iff)
  from "Binder.IH" [OF b this "Binder.prems"(4)] "Binder.prems"(1) b show ?case by auto
next
  case (Redex env p body a c)
  obtain a' c1 where a: "reduce_full env a c = (a', c1)" by (cases "reduce_full env a c")
  from "Redex.prems"(2) have fb: "first_order body" and nb: "\<not> is_lambda body"
    and fa: "first_order a" and na: "\<not> is_lambda a"
    by simp_all
  from "Redex.IH"(1) [OF a fa "Redex.prems"(3,4)] na
  have va: "reduced_value a'" and c1: "list_all (\<lambda>(k, v). reduced_value v) c1"
    by (simp_all add: reduced_value_def)
  from va "Redex.prems"(3) have env': "list_all (\<lambda>(q, v). reduced_value v) ((p, a') # env)"
    by simp
  show ?case
  proof (cases "free_params (Lambda p body) = []")
    case True
    show ?thesis
    proof (cases "map_of c1 (Lambda p body, a')")
      case None
      obtain r2 c2 where b: "reduce_full ((p, a') # env) body c1 = (r2, c2)"
        by (cases "reduce_full ((p, a') # env) body c1")
      from "Redex.IH"(2) [OF a [symmetric] True None b fb env' c1] nb
      have "reduced_value r2" and "list_all (\<lambda>(k, v). reduced_value v) c2"
        by (simp_all add: reduced_value_def)
      moreover from "Redex.prems"(1) a True None b
      have "r = r2" "c' = c2 @ [((Lambda p body, a'), r2)]" by auto
      ultimately show ?thesis by (simp add: reduced_value_def)
    next
      case (Some r1)
      then have "((Lambda p body, a'), r1) \<in> set c1" by (rule map_of_SomeD)
      with c1 have "reduced_value r1" by (auto simp: list_all_iff)
      moreover from "Redex.prems"(1) a True Some have "r = r1" "c' = c1" by auto
      ultimately show ?thesis using c1 by (simp add: reduced_value_def)
    qed
  next
    case False
    from "Redex.prems"(1) a False have b: "reduce_full ((p, a') # env) body c1 = (r, c')" by simp
    from "Redex.IH"(3) [OF a [symmetric] False b fb env' c1] nb show ?thesis by simp
  qed
next
  case (ApplyVar env g a c)
  obtain a' c2 where a: "reduce_full env a c = (a', c2)" by (cases "reduce_full env a c")
  from "ApplyVar.prems"(2) have fa: "first_order a" and na: "\<not> is_lambda a" by simp_all
  from "ApplyVar.IH"(2) [of "Var g" c, OF _ a fa "ApplyVar.prems"(3,4)] na
  have "redex_free a'" and "list_all (\<lambda>(k, v). reduced_value v) c2" by simp_all
  moreover from "ApplyVar.prems"(1) a have "r = Apply (Var g) a'" "c' = c2" by auto
  ultimately show ?case by simp
next
  case (ApplyParam env v a c)
  then show ?case by simp
next
  case (ApplyApply env v va a c)
  then show ?case by simp
qed


lemma beta_reduce_full_node_redex_free:
  assumes "first_order app" and "list_all (\<lambda>(k, v). reduced_value v) c"
  shows "redex_free (fst (beta_reduce_full_node b app c)) \<and>
         list_all (\<lambda>(k, v). reduced_value v) (fst (snd (beta_reduce_full_node b app c)))"
proof (cases "map_of c (pair_of app)")
  case None
  obtain r c' where red: "reduce_full [] app c = (r, c')" by (cases "reduce_full [] app c")
  from reduce_full_redex_free [OF red assms(1) _ assms(2)] None red show ?thesis
    by (simp add: beta_reduce_full_node_def)
next
  case (Some v)
  then have "(pair_of app, v) \<in> set c" by (rule map_of_SomeD)
  with assms(2) have "reduced_value v" by (auto simp: list_all_iff)
  with Some assms(2) show ?thesis
    by (simp add: beta_reduce_full_node_def reduced_value_def)
qed



lemma reference_count_add [simp]:
  "reference_count (add_references d b n) m = reference_count b m + (if m = n then d else 0)"
  by (simp add: reference_count_def add_references_def update_conv')

lemma reference_count_foldl:
  "reference_count (foldl (add_references d) b ns) m =
     reference_count b m + d * int (count_list ns m)"
  by (induction ns arbitrary: b) (simp_all add: algebra_simps)

lemma reference_count_frame [simp]:
  "reference_count (b\<lparr>substitutions := t\<rparr>) m = reference_count b m"
  "reference_count (b\<lparr>time_elimapplies := x\<rparr>) m = reference_count b m"
  by (simp_all add: reference_count_def)

lemma reference_count_rebuild [simp]:
  "reference_count (rebuild b t) m = reference_count b m"
  by (simp add: reference_count_def rebuild_def Let_def)

lemma reference_count_reducer:
  "reference_count (snd (snd (beta_reduce_full_node b app c))) m =
     reference_count b m + (if m = fst (beta_reduce_full_node b app c) then 1 else 0) +
     int (count_list (map snd (fst (snd (beta_reduce_full_node b app c)))) m) -
     int (count_list (map snd c) m)"
proof (cases "map_of c (pair_of app)")
  case None
  obtain r c' where red: "reduce_full [] app c = (r, c')" by (cases "reduce_full [] app c")
  from reduce_full_cache [OF red] obtain new where "c' = c @ new" by blast
  with None red show ?thesis
    by (simp add: beta_reduce_full_node_def reference_count_foldl)
next
  case (Some v)
  then show ?thesis by (simp add: beta_reduce_full_node_def)
qed

lemma counts_references_node_universe:
  "counts_references reference_count (node_universe r)"
  using reference_count_reducer
  by (simp add: counts_references_def) (simp add: node_universe_def)

lemma rebuild_keeps_table_node_universe: "rebuild_keeps_table (node_universe r)"
  by (simp add: rebuild_keeps_table_def node_universe_def rebuild_def Let_def)

subsection \<open>References\<close>

lemma foldl_release_count:
  assumes "counts_references refs X"
  shows "refs (foldl (node_release X) b ns) m = refs b m - int (count_list ns m)"
proof (induction ns arbitrary: b)
  case Nil
  show ?case by simp
next
  case (Cons n ns)
  from assms have "refs (node_release X b n) m = refs b m - (if m = n then 1 else 0)"
    unfolding counts_references_def by blast
  with Cons [of "node_release X b n"] show ?case by simp
qed

lemma delete_substitutions_count:
  assumes "counts_references refs X"
  shows "refs (btor_delete_substitutions X b) m =
           refs b m - int (count_list (map snd (substitutions b)) m)"
proof -
  from assms have "\<And>b t m. refs (b\<lparr>substitutions := t\<rparr>) m = refs b m"
    unfolding counts_references_def by blast
  then show ?thesis
    by (simp add: btor_delete_substitutions_def foldl_release_count [OF assms])
qed

text \<open>
  Lines 61 to 65.  After them the only references that have been added are the one that
  the table holds for its new entry and those that the new entries of the cache hold: the
  reference that the reducer returned to the caller has been given back.
\<close>

lemma eliminate_apply_references:
  assumes counts: "counts_references refs X"
    and keeps: "keeps_substitutions X"
    and e: "eliminate_apply X app t = Inr t'"
  shows "refs (btor t') n =
           refs (btor t) n +
           int (count_list (map snd (substitutions (btor t'))) n) -
           int (count_list (map snd (substitutions (btor t))) n) +
           int (count_list (map snd (cache t')) n) -
           int (count_list (map snd (cache t)) n)"
proof -
  obtain r c' b1 where beta: "beta_reduce_full X (btor t) app (cache t) = (r, c', b1)"
    by (cases "beta_reduce_full X (btor t) app (cache t)")
  from counts have "refs (snd (snd (beta_reduce_full X (btor t) app (cache t)))) n =
      refs (btor t) n + (if n = fst (beta_reduce_full X (btor t) app (cache t)) then 1 else 0) +
      int (count_list (map snd (fst (snd (beta_reduce_full X (btor t) app (cache t))))) n) -
      int (count_list (map snd (cache t)) n)"
    unfolding counts_references_def by blast
  with beta have b1: "refs b1 n = refs (btor t) n + (if n = r then 1 else 0) +
      int (count_list (map snd c') n) - int (count_list (map snd (cache t)) n)"
    by simp
  from counts have copy: "\<And>b k m. refs (node_copy X b k) m = refs b m + (if m = k then 1 else 0)"
    and release: "\<And>b k m. refs (node_release X b k) m = refs b m - (if m = k then 1 else 0)"
    and frame: "\<And>b t m. refs (b\<lparr>substitutions := t\<rparr>) m = refs b m"
    unfolding counts_references_def by blast+
  from e beta have t': "btor t' = node_release X (btor_insert_substitution X b1 app r) r"
    "cache t' = c'"
    by (auto simp: eliminate_apply_def split: if_splits)
  have "refs (btor t') n = refs b1 n"
    by (simp add: t' release copy frame btor_insert_substitution_def Let_def)
  moreover from keeps
  have "substitutions (snd (snd (beta_reduce_full X (btor t) app (cache t)))) =
      substitutions (btor t)"
    and "\<And>b k. substitutions (node_copy X b k) = substitutions b"
    and "\<And>b k. substitutions (node_release X b k) = substitutions b"
    unfolding keeps_substitutions_def by blast+
  with beta have "substitutions (btor t') = substitutions (btor t) @ [(app, r)]"
    by (simp add: t' btor_insert_substitution_def Let_def)
  ultimately show ?thesis using b1 t' by simp
qed

lemma one_round_references:
  assumes counts: "counts_references refs X"
    and keeps: "keeps_substitutions X"
    and table: "rebuild_keeps_table X"
    and before: "cache_holds_the_rest refs b t"
    and round: "one_round X t = Inr t'"
  shows "cache_holds_the_rest refs b t'"
proof -
  let ?K = "\<lambda>u :: ('a, 'b) pass_state.
     \<forall>n. refs (btor u) n = refs b n + int (count_list (map snd (cache u)) n) +
            int (count_list (map snd (substitutions (btor u))) n)"
  from counts have frame: "\<And>b t m. refs (b\<lparr>substitutions := t\<rparr>) m = refs b m"
    and rebuilt: "\<And>b t m. refs (substitute_and_rebuild X b t) m = refs b m"
    unfolding counts_references_def by blast+
  show ?thesis
    using round before
  proof (rule one_round_hoare
      [where J = "cache_holds_the_rest refs b" and K = ?K and Q = "cache_holds_the_rest refs b"])
    fix u assume "cache_holds_the_rest refs b u"
    then show "?K (round_begin u)"
      by (simp add: cache_holds_the_rest_def round_begin_def btor_init_substitutions_def frame)
  next
    fix app u u'
    assume K: "?K u" and e: "eliminate_apply X app u = Inr u'"
    show "?K u'"
    proof
      fix n
      from eliminate_apply_references [OF counts keeps e, of n] K
      show "refs (btor u') n = refs b n + int (count_list (map snd (cache u')) n) +
            int (count_list (map snd (substitutions (btor u'))) n)"
        by simp
    qed
  next
    fix u assume K: "?K u"
    from table
    have "substitutions (substitute_and_rebuild X (btor u) (substitutions (btor u))) =
        substitutions (btor u)"
      unfolding rebuild_keeps_table_def by blast
    with K show "cache_holds_the_rest refs b (round_end X u)"
      by (simp add: cache_holds_the_rest_def round_end_def
          delete_substitutions_count [OF counts] rebuilt)
  qed
qed

text \<open>
  C3.  Reference counting is read off the solver state.  Lines 61 to 65 give back the
  reference that the reducer returned and leave only the references of the new table
  entry and of the new cache entries.  When the pass is entered, and after every round of
  every run, whether the run returns or not, the references still held are those of the
  cache entries and nothing else: the table of the round has given back its own.  Lines
  96 to 102 empty the cache and give these back, before the closing debug checks.  In a
  run that returns, along the early return of line 31 or after the last round, the cache
  is empty and the reference count of every node is what it was when the pass was
  entered.  The collaborators count references as the specification says and leave
  \<^verbatim>\<open>btor->substitutions\<close> alone.
\<close>

theorem references_balance:
  assumes counts: "counts_references refs X"
    and keeps: "keeps_substitutions X"
    and table: "rebuild_keeps_table X"
  shows "(\<forall>app t t' n. eliminate_apply X app t = Inr t' \<longrightarrow>
            refs (btor t') n =
              refs (btor t) n +
              int (count_list (map snd (substitutions (btor t'))) n) -
              int (count_list (map snd (substitutions (btor t))) n) +
              int (count_list (map snd (cache t')) n) -
              int (count_list (map snd (cache t)) n)) \<and>
         cache_holds_the_rest refs b (started b) \<and>
         (\<forall>t t'. cache_holds_the_rest refs b t \<longrightarrow> one_round X t = Inr t' \<longrightarrow>
            cache_holds_the_rest refs b t') \<and>
         (\<forall>t. cache_holds_the_rest refs b t \<longrightarrow>
            cache (cache_teardown X t) = [] \<and>
            (\<forall>n. refs (btor (cache_teardown X t)) n = refs b n)) \<and>
         (\<forall>s. btor_eliminate_applies X b = Some (Inr s) \<longrightarrow>
            cache s = [] \<and> (\<forall>n. refs (btor s) n = refs b n))"
proof -
  have start: "cache_holds_the_rest refs b (started b)"
    by (simp add: cache_holds_the_rest_def started_def)
  have teardown: "cache (cache_teardown X t) = [] \<and>
      (\<forall>n. refs (btor (cache_teardown X t)) n = refs b n)"
    if "cache_holds_the_rest refs b t" for t
    using that
    by (simp add: cache_teardown_def cache_holds_the_rest_def foldl_release_count [OF counts])
  have round: "cache_holds_the_rest refs b t'"
    if "cache_holds_the_rest refs b t" and "one_round X t = Inr t'" for t t'
    using counts keeps table that by (rule one_round_references)
  have "cache s = [] \<and> (\<forall>n. refs (btor s) n = refs b n)"
    if run: "btor_eliminate_applies X b = Some (Inr s)" for s
  proof (cases "lambdas b = []")
    case True
    with run show ?thesis by (auto simp: btor_eliminate_applies_def untouched_def)
  next
    case False
    have "\<exists>s0 s1. cache_holds_the_rest refs b s0 \<and> one_round X s0 = Inr s1 \<and>
            \<not> 0 < num_applies s1 \<and> after_rounds X (time_stamp X 0) s1 = Inr s"
      using run False start
    proof (rule pass_until_empty [where I = "cache_holds_the_rest refs b"])
      fix t t' assume "cache_holds_the_rest refs b t" "one_round X t = Inr t'"
      then show "cache_holds_the_rest refs b t'" by (rule round)
    qed
    then obtain s0 s1 where J0: "cache_holds_the_rest refs b s0"
      and r1: "one_round X s0 = Inr s1"
      and after: "after_rounds X (time_stamp X 0) s1 = Inr s"
      by blast
    from J0 r1 have J1: "cache_holds_the_rest refs b s1" by (rule round)
    from counts have frame: "\<And>b d m. refs (b\<lparr>time_elimapplies := d\<rparr>) m = refs b m"
      unfolding counts_references_def by blast
    from after have bs: "btor s = (btor (cache_teardown X s1))
       \<lparr>time_elimapplies :=
          time_elimapplies (btor (cache_teardown X s1)) + (time_stamp X 1 - time_stamp X 0)\<rparr>"
      and cs: "cache s = cache (cache_teardown X s1)"
      by (auto simp: after_rounds_def finish_def Let_def split: if_splits)
    from teardown [OF J1] show ?thesis
      by (simp add: bs cs frame)
  qed
  with start round teardown eliminate_apply_references [OF counts keeps]
  show ?thesis by blast
qed

theorem references_balance_witness:
  "btor_eliminate_applies (node_universe False) scenario_reuse =
     Some (Inr scenario_reuse_final) \<and>
   cache scenario_reuse_final = [] \<and>
   reference_count (btor scenario_reuse_final) (Var 0) = reference_count scenario_reuse (Var 0) \<and>
   reference_count (btor scenario_reuse_final) (Var 1) = reference_count scenario_reuse (Var 1) \<and>
   graph_refs (universe (btor scenario_reuse_final)) = [(Var 0, 0), (Var 1, 0)] \<and>
   map (reference_count
          (fst (replay (node_universe False) scenario_reuse
                  (take 12 (trace scenario_reuse_final)))))
     [Var 0, Var 1] = [4, 2] \<and>
   map (reference_count
          (fst (replay (node_universe False) scenario_reuse
                  (take 19 (trace scenario_reuse_final)))))
     [Var 0, Var 1] = [2, 1]"
proof -
  have "graph_refs (universe (btor scenario_reuse_final)) = [(Var 0, 0), (Var 1, 0)]"
    by (simp add: scenario_reuse_final_def)
  moreover have "map (reference_count
          (fst (replay (node_universe False) scenario_reuse
                  (take 12 (trace scenario_reuse_final)))))
     [Var 0, Var 1] = [4, 2]"
    by code_simp
  moreover have "map (reference_count
          (fst (replay (node_universe False) scenario_reuse
                  (take 19 (trace scenario_reuse_final)))))
     [Var 0, Var 1] = [2, 1]"
    by code_simp
  moreover from references_balance
    [OF counts_references_node_universe keeps_substitutions_node_universe
      rebuild_keeps_table_node_universe, of False scenario_reuse]
    scenario_reuse_run
  have "cache scenario_reuse_final = [] \<and>
        (\<forall>n. reference_count (btor scenario_reuse_final) n = reference_count scenario_reuse n)"
    by blast
  ultimately show ?thesis using scenario_reuse_run by simp
qed

subsection \<open>The pair cache\<close>

lemma cache_step_silent [simp]:
  "cache_step st TimeStamp = st"
  "cache_step st InitSubstitutions = st"
  "cache_step st (InsertSubstitution a r) = st"
  "cache_step st (NodeRelease v) = st"
  "cache_step st (Msg_round n k) = st"
  "cache_step st (SubstituteAndRebuild m) = st"
  "cache_step st (DeleteSubstitutions m) = st"
  "cache_step st (PairDelete p) = st"
  "cache_step st (Msg_total n d) = st"
  by (cases st; simp)+

lemma cache_lifecycle_append [simp]:
  "cache_lifecycle (t @ u) = foldl cache_step (cache_lifecycle t) u"
  by (simp add: cache_lifecycle_def)







end
